theory Spec2Isabelle
  imports Complex_Main
begin

section \<open>Warping functions of GPy (GPy/util/warping_functions.py)\<close>

text \<open>
  The module works on numpy arrays of 64-bit floats. An array of shape \<open>[N, 1]\<close> (the
  shape the docstrings ask for) is a list of its \<open>N\<close> entries. The functions are embedded
  twice. The first embedding computes with exact real numbers: it carries the control
  flow of \<open>f_inv\<close>, the shape and index errors, the formulas of the gradients and the
  aliasing of arrays. There the one place where numpy leaves the real numbers on real
  inputs is a division by zero, which yields \<open>inf\<close> or \<open>nan\<close> without raising; the model
  reports it as the outcome \<open>NonFinite\<close> and does not follow the computation further. A
  shape that numpy cannot broadcast raises \<open>ValueError\<close>, an index out of bounds raises
  \<open>IndexError\<close>. The second embedding (\<open>f_float64\<close>, \<open>fgrad_y_float64\<close>) rounds every
  operation as IEEE 754 binary64 does, with overflow, infinities and \<open>nan\<close>; the
  properties that rounding decides are stated about it.
\<close>

subsection \<open>Arrays\<close>

type_synonym array = "real list"

datatype failure = ValueError | IndexError | NonFinite

text \<open>Elementwise binary operation of two \<open>[N, 1]\<close> arrays under numpy's broadcasting
  rule: equal lengths, or one operand of length one is stretched.\<close>

definition broadcast2 :: "(real \<Rightarrow> real \<Rightarrow> real) \<Rightarrow> array \<Rightarrow> array \<Rightarrow> failure + array" where
  "broadcast2 op xs ys =
     (if length xs = length ys then Inr (map2 op xs ys)
      else if length ys = 1 then Inr (map (\<lambda>x. op x (hd ys)) xs)
      else if length xs = 1 then Inr (map (\<lambda>y. op (hd xs) y) ys)
      else Inl ValueError)"

text \<open>In-place operation \<open>xs op= ys\<close>: the result must have the shape of \<open>xs\<close>.\<close>

definition inplace2 :: "(real \<Rightarrow> real \<Rightarrow> real) \<Rightarrow> array \<Rightarrow> array \<Rightarrow> failure + array" where
  "inplace2 op xs ys =
     (if length xs = length ys then Inr (map2 op xs ys)
      else if length ys = 1 then Inr (map (\<lambda>x. op x (hd ys)) xs)
      else Inl ValueError)"

text \<open>Elementwise quotient; a zero divisor takes the result out of the reals.\<close>

definition divide_arrays :: "array \<Rightarrow> array \<Rightarrow> failure + array" where
  "divide_arrays xs ys =
     (if 0 \<in> set ys then Inl NonFinite else broadcast2 (/) xs ys)"

text \<open>\<open>np.abs(update).sum()\<close> and \<open>np.sum(update)\<close>.\<close>

definition abs_sum :: "array \<Rightarrow> real" where
  "abs_sum u = sum_list (map abs u)"

subsection \<open>The parameter set\<close>

text \<open>\<open>psi\<close> is the \<open>n_terms x 3\<close> array of rows \<open>[a, b, c]\<close>; \<open>d\<close> is the scalar
  parameter; \<open>initial_y\<close> is the optional hint that scales the initial guess of \<open>f_inv\<close>
  (a scalar hint is an array of one entry).\<close>

record tanh_function =
  n_terms :: int
  num_parameters :: int
  psi :: "(real \<times> real \<times> real) list"
  d :: real
  initial_y :: "array option"

text \<open>\<open>TanhFunction.__init__(n_terms, initial_y)\<close>: \<open>np.ones((n_terms, 3))\<close> raises
  \<open>ValueError\<close> on a negative dimension. With no term, \<open>psi\<close> has shape \<open>(0, 3)\<close> and
  \<open>self.psi[:, :2].constrain_positive()\<close> is called on an empty slice, which the
  parameter framework refuses with \<open>ValueError\<close>: the constructor returns an instance
  for \<open>n_terms \<ge> 1\<close> only. \<open>d\<close> starts at \<open>1.0\<close>.\<close>

definition init :: "int \<Rightarrow> array option \<Rightarrow> failure + tanh_function" where
  "init n hint =
     (if n < 0 then Inl ValueError
      else if n = 0 then Inl ValueError
      else Inr \<lparr> n_terms = n, num_parameters = 3 * n + 1,
                 psi = replicate (nat n) (1, 1, 1), d = 1, initial_y = hint \<rparr>)"

text \<open>The invariant the parameter framework maintains (\<open>constrain_positive\<close> on the
  first two columns of \<open>psi\<close>, \<open>Logexp\<close> on \<open>d\<close>).\<close>

definition valid :: "tanh_function \<Rightarrow> bool" where
  "valid tf \<longleftrightarrow> 0 < d tf \<and> list_all (\<lambda>(a, b, c). 0 < a \<and> 0 < b) (psi tf)"

text \<open>An instance with a single term and no hint; the concrete scenarios of the
  specification are about \<open>one_term 1 1 0 1\<close>.\<close>

definition one_term :: "real \<Rightarrow> real \<Rightarrow> real \<Rightarrow> real \<Rightarrow> tanh_function" where
  "one_term a b c dd =
     \<lparr> n_terms = 1, num_parameters = 4, psi = [(a, b, c)], d = dd, initial_y = None \<rparr>"

subsection \<open>The forward transform \<open>f\<close>\<close>

text \<open>\<open>z = d * y.copy()\<close>, then for each row of \<open>psi\<close>, \<open>z += a * np.tanh(b * (y + c))\<close>.\<close>

definition f_term :: "array \<Rightarrow> array \<Rightarrow> real \<times> real \<times> real \<Rightarrow> array" where
  "f_term y z = (\<lambda>(a, b, c). map2 (+) z (map (\<lambda>v. a * tanh (b * (v + c))) y))"

definition f :: "tanh_function \<Rightarrow> array \<Rightarrow> array" where
  "f tf y = foldl (f_term y) (map (\<lambda>v. d tf * v) y) (psi tf)"

subsection \<open>The Jacobian \<open>fgrad_y\<close>\<close>

text \<open>The vectorised code: \<open>S[i][n] = b_i * (y[n] + c_i)\<close>, \<open>R = tanh S\<close>,
  \<open>D = 1 - R ** 2\<close>, and \<open>GRAD = d + (a * b * D).sum(axis=0)\<close>. The sum over the term
  axis of an empty stack is the zero array.\<close>

definition sum_axis0 :: "nat \<Rightarrow> array list \<Rightarrow> array" where
  "sum_axis0 N rows = foldr (map2 (+)) rows (replicate N 0)"

definition fgrad_y_precalc ::
  "tanh_function \<Rightarrow> array \<Rightarrow> array \<times> array list \<times> array list \<times> array list" where
  "fgrad_y_precalc tf y =
     (let S = map (\<lambda>(a, b, c). map (\<lambda>v. b * (v + c)) y) (psi tf);
          R = map (map tanh) S;
          D = map (map (\<lambda>r. 1 - r ^ 2)) R;
          GRAD = map (\<lambda>s. d tf + s)
                   (sum_axis0 (length y) (map2 (\<lambda>(a, b, c). map (\<lambda>x. a * b * x)) (psi tf) D))
      in (GRAD, S, R, D))"

definition fgrad_y :: "tanh_function \<Rightarrow> array \<Rightarrow> array" where
  "fgrad_y tf y = fst (fgrad_y_precalc tf y)"

subsection \<open>Entrywise functions\<close>

text \<open>\<open>f\<close> and \<open>fgrad_y\<close> act on each entry on its own; these are the scalar functions
  they apply (lemmas \<open>f_map\<close> and \<open>fgrad_y_map\<close>).\<close>

definition f1 :: "tanh_function \<Rightarrow> real \<Rightarrow> real" where
  "f1 tf v = d tf * v + (\<Sum>(a, b, c)\<leftarrow>psi tf. a * tanh (b * (v + c)))"

definition fgrad1 :: "tanh_function \<Rightarrow> real \<Rightarrow> real" where
  "fgrad1 tf v = d tf + (\<Sum>(a, b, c)\<leftarrow>psi tf. a * b * (1 - (tanh (b * (v + c))) ^ 2))"

text \<open>One Newton-Raphson step on a single entry \<open>v\<close> towards the target \<open>w\<close>.\<close>

definition newton_map :: "tanh_function \<Rightarrow> real \<Rightarrow> real \<Rightarrow> real" where
  "newton_map tf w v = v - (f1 tf v - w) / fgrad1 tf v"

subsection \<open>The inverse \<open>f_inv\<close> by Newton-Raphson\<close>

text \<open>The loop variable \<open>update\<close> starts as the scalar \<open>np.inf\<close> and holds an array from
  the first iteration on. \<open>exceeds\<close> is the test \<open>np.abs(update).sum() > 1e-10\<close>.\<close>

datatype update = Infinity | Update array

fun exceeds :: "update \<Rightarrow> bool" where
  "exceeds Infinity = True"
| "exceeds (Update u) = (abs_sum u > 1 / 10 ^ 10)"

text \<open>\<open>np.sum(update)\<close>, the number the second \<open>print\<close> formats; \<open>None\<close> is \<open>inf\<close>.\<close>

fun np_sum :: "update \<Rightarrow> real option" where
  "np_sum Infinity = None"
| "np_sum (Update u) = Some (sum_list u)"

text \<open>The two lines \<open>f_inv\<close> may print: the fixed warning
  \<open>WARNING!!! Maximum number of iterations reached in f_inv\<close>, and
  \<open>Sum of updates:\<close> followed by \<open>np.sum(update)\<close>.\<close>

datatype printed = Warning_line | Sum_line "real option"

text \<open>\<open>y = ((z > 0) * 1.) - (z <= 0)\<close>, then \<open>y *= self.initial_y\<close> if a hint is set.\<close>

definition sign_guess :: "array \<Rightarrow> array" where
  "sign_guess z = map (\<lambda>v. (if v > 0 then 1 else 0) * 1 - (if v \<le> 0 then 1 else 0)) z"

definition initial_guess :: "tanh_function \<Rightarrow> array \<Rightarrow> failure + array" where
  "initial_guess tf z =
     (case initial_y tf of
        None \<Rightarrow> Inr (sign_guess z)
      | Some hint \<Rightarrow> inplace2 (*) (sign_guess z) hint)"

text \<open>The loop body: \<open>fy = self.f(y)\<close>, \<open>fgrady = self.fgrad_y(y)\<close>,
  \<open>update = (fy - z) / fgrady\<close>, \<open>y -= update\<close>. It yields the new \<open>y\<close> and \<open>update\<close>.
  After \<open>NonFinite\<close> the model does not say what numpy goes on to do.\<close>

definition newton_step :: "tanh_function \<Rightarrow> array \<Rightarrow> array \<Rightarrow> failure + array \<times> array" where
  "newton_step tf z y =
     (case broadcast2 (-) (f tf y) z of
        Inl e \<Rightarrow> Inl e
      | Inr diff \<Rightarrow>
          (case divide_arrays diff (fgrad_y tf y) of
             Inl e \<Rightarrow> Inl e
           | Inr update \<Rightarrow>
               (case inplace2 (-) y update of
                  Inl e \<Rightarrow> Inl e
                | Inr y' \<Rightarrow> Inr (y', update))))"

text \<open>\<open>while it == 0 or (np.abs(update).sum() > 1e-10 and it < max_iterations)\<close>.\<close>

function newton_loop ::
  "tanh_function \<Rightarrow> array \<Rightarrow> int \<Rightarrow> array \<Rightarrow> update \<Rightarrow> nat \<Rightarrow> failure + array \<times> update \<times> nat" where
  "newton_loop tf z max_iterations y update it =
     (if it = 0 \<or> (exceeds update \<and> int it < max_iterations) then
        (case newton_step tf z y of
           Inl e \<Rightarrow> Inl e
         | Inr (y', u) \<Rightarrow> newton_loop tf z max_iterations y' (Update u) (it + 1))
      else Inr (y, update, it))"
  by pat_completeness auto
termination
  by (relation "measure (\<lambda>(tf, z, max_iterations, y, update, it). nat (max max_iterations 1) - it)")
     auto

declare newton_loop.simps [simp del]

record inv_result =
  result_y :: array
  iterations :: nat
  last_update :: update
  printed_lines :: "printed list"

text \<open>\<open>f_inv(z, max_iterations, y)\<close> on array values: the argument \<open>y\<close> is the optional
  starting array. The warning is printed \<open>if it == max_iterations\<close>.\<close>

definition start_guess :: "tanh_function \<Rightarrow> array \<Rightarrow> array option \<Rightarrow> failure + array" where
  "start_guess tf z y_arg = (case y_arg of None \<Rightarrow> initial_guess tf z | Some y \<Rightarrow> Inr y)"

definition f_inv :: "tanh_function \<Rightarrow> array \<Rightarrow> int \<Rightarrow> array option \<Rightarrow> failure + inv_result" where
  "f_inv tf z max_iterations y_arg =
     (case start_guess tf z y_arg of
        Inl e \<Rightarrow> Inl e
      | Inr y0 \<Rightarrow>
          (case newton_loop tf z max_iterations y0 Infinity 0 of
             Inl e \<Rightarrow> Inl e
           | Inr (y, update, it) \<Rightarrow>
               Inr \<lparr> result_y = y, iterations = it, last_update = update,
                     printed_lines = (if int it = max_iterations
                               then [Warning_line, Sum_line (np_sum update)] else []) \<rparr>))"

text \<open>The state after \<open>k\<close> passes through the loop body from the starting array \<open>y0\<close>:
  the \<open>k\<close>-th Newton iterate and the update that led to it.\<close>

fun newton_iter :: "tanh_function \<Rightarrow> array \<Rightarrow> array \<Rightarrow> nat \<Rightarrow> failure + array \<times> update" where
  "newton_iter tf z y0 0 = Inr (y0, Infinity)"
| "newton_iter tf z y0 (Suc k) =
     (case newton_iter tf z y0 k of
        Inl e \<Rightarrow> Inl e
      | Inr (y, u) \<Rightarrow>
          (case newton_step tf z y of Inl e \<Rightarrow> Inl e | Inr (y', u') \<Rightarrow> Inr (y', Update u')))"

subsection \<open>The parameter gradients \<open>fgrad_y_psi\<close>\<close>

text \<open>The tensors have shape \<open>[N, 1, n_terms, 4]\<close>; the model drops the axis of size one
  and keeps the last axis as a 4-tuple, so a tensor is a list over the observations of a
  list over the terms. \<open>upd4 k v\<close> writes position \<open>k\<close> of the last axis.\<close>

type_synonym quad = "real \<times> real \<times> real \<times> real"

type_synonym tensor = "quad list list"

fun upd4 :: "nat \<Rightarrow> real \<Rightarrow> quad \<Rightarrow> quad" where
  "upd4 0 v (p, q, r, s) = (v, q, r, s)"
| "upd4 (Suc 0) v (p, q, r, s) = (p, v, r, s)"
| "upd4 (Suc (Suc 0)) v (p, q, r, s) = (p, q, v, s)"
| "upd4 k v (p, q, r, s) = (p, q, r, v)"

fun comp4 :: "nat \<Rightarrow> quad \<Rightarrow> real" where
  "comp4 0 (p, q, r, s) = p"
| "comp4 (Suc 0) (p, q, r, s) = q"
| "comp4 (Suc (Suc 0)) (p, q, r, s) = r"
| "comp4 k (p, q, r, s) = s"

text \<open>\<open>np.zeros((N, 1, n_terms, 4))\<close>, and the assignment \<open>G[:, :, i, k] = col\<close>.\<close>

definition zeros :: "nat \<Rightarrow> nat \<Rightarrow> tensor" where
  "zeros N T = replicate N (replicate T (0, 0, 0, 0))"

definition set_column :: "tensor \<Rightarrow> nat \<Rightarrow> nat \<Rightarrow> array \<Rightarrow> tensor" where
  "set_column G i k col = map2 (\<lambda>row v. row[i := upd4 k v (row ! i)]) G col"

text \<open>The body of the first loop over the terms, with \<open>s\<close>, \<open>r\<close>, \<open>d\<close> the arrays
  \<open>S\<close>, \<open>R\<close>, \<open>D\<close> of \<open>fgrad_y\<close>; \<open>(1.0 / np.cosh(s[i])) ** 2\<close> is the squared
  hyperbolic secant.\<close>

definition gradients_body ::
  "tanh_function \<Rightarrow> array list \<Rightarrow> array list \<Rightarrow> array list \<Rightarrow> nat \<Rightarrow> tensor \<Rightarrow> nat \<Rightarrow> tensor" where
  "gradients_body tf s r dd N G i =
     (case psi tf ! i of (a, b, c) \<Rightarrow>
        set_column
          (set_column
             (set_column G i 0 (map (\<lambda>n. b * (1 / cosh (s ! i ! n)) ^ 2) [0..<N]))
             i 1 (map (\<lambda>n. a * (dd ! i ! n - 2 * (s ! i ! n) * (r ! i ! n)
                                   * (1 / cosh (s ! i ! n)) ^ 2)) [0..<N]))
          i 2 (map (\<lambda>n. - 2 * a * b ^ 2 * (r ! i ! n) * (1 / cosh (s ! i ! n)) ^ 2) [0..<N]))"

text \<open>The body of the second loop, for \<open>covar_grad_chain\<close>.\<close>

definition covar_body ::
  "tanh_function \<Rightarrow> array \<Rightarrow> array list \<Rightarrow> array list \<Rightarrow> nat \<Rightarrow> tensor \<Rightarrow> nat \<Rightarrow> tensor" where
  "covar_body tf y s r N G i =
     (case psi tf ! i of (a, b, c) \<Rightarrow>
        set_column
          (set_column
             (set_column G i 0 (r ! i))
             i 1 (map (\<lambda>n. a * (y ! n + c) * (1 / cosh (s ! i ! n)) ^ 2) [0..<N]))
          i 2 (map (\<lambda>n. a * b * (1 / cosh (s ! i ! n)) ^ 2) [0..<N]))"

text \<open>\<open>fgrad_y_psi(y, return_covar_chain)\<close>. The assignment
  \<open>gradients[:, :, 0, 3] = 1.0\<close> raises \<open>IndexError\<close> when there is no term.\<close>

definition fgrad_y_psi ::
  "tanh_function \<Rightarrow> array \<Rightarrow> bool \<Rightarrow> failure + tensor \<times> tensor option" where
  "fgrad_y_psi tf y return_covar_chain =
     (case fgrad_y_precalc tf y of (w, s, r, dd) \<Rightarrow>
        (let N = length y; T = length (psi tf);
             gradients = fold (\<lambda>i G. gradients_body tf s r dd N G i) [0..<T] (zeros N T)
         in if T = 0 then Inl IndexError
            else
              (let gradients = set_column gradients 0 3 (replicate N 1)
               in if return_covar_chain then
                    (let covar_grad_chain =
                           fold (\<lambda>i G. covar_body tf y s r N G i) [0..<T] (zeros N T);
                         covar_grad_chain = set_column covar_grad_chain 0 3 y
                     in Inr (gradients, Some covar_grad_chain))
                  else Inr (gradients, None))))"

text \<open>The tensor after \<open>j\<close> passes of a loop whose pass \<open>i\<close> writes \<open>e i n\<close> into term
  \<open>i\<close> of observation \<open>n\<close> (used to state what the two loops compute).\<close>

definition table :: "(nat \<Rightarrow> nat \<Rightarrow> quad) \<Rightarrow> nat \<Rightarrow> nat \<Rightarrow> nat \<Rightarrow> tensor" where
  "table e N T j = map (\<lambda>n. map (\<lambda>i. if i < j then e i n else (0, 0, 0, 0)) [0..<T]) [0..<N]"

text \<open>The entries the two loops write, in closed form: the partial derivatives of the
  Jacobian and of the transform with respect to \<open>a\<close>, \<open>b\<close>, \<open>c\<close> of term \<open>i\<close> at
  observation \<open>n\<close> (the position of \<open>d\<close> is filled after the loops).\<close>

definition jac_entry :: "tanh_function \<Rightarrow> array \<Rightarrow> nat \<Rightarrow> nat \<Rightarrow> quad" where
  "jac_entry tf y i n =
     (case psi tf ! i of (a, b, c) \<Rightarrow>
        (b * (1 / cosh (b * (y ! n + c))) ^ 2,
         a * ((1 - (tanh (b * (y ! n + c))) ^ 2)
              - 2 * (b * (y ! n + c)) * tanh (b * (y ! n + c)) * (1 / cosh (b * (y ! n + c))) ^ 2),
         - 2 * a * b ^ 2 * tanh (b * (y ! n + c)) * (1 / cosh (b * (y ! n + c))) ^ 2,
         0))"

definition chain_entry :: "tanh_function \<Rightarrow> array \<Rightarrow> nat \<Rightarrow> nat \<Rightarrow> quad" where
  "chain_entry tf y i n =
     (case psi tf ! i of (a, b, c) \<Rightarrow>
        (tanh (b * (y ! n + c)),
         a * (y ! n + c) * (1 / cosh (b * (y ! n + c))) ^ 2,
         a * b * (1 / cosh (b * (y ! n + c))) ^ 2,
         0))"

subsection \<open>The gradient buffers and \<open>update_grads\<close>\<close>

text \<open>\<open>self.psi.gradient\<close> (shape \<open>[n_terms, 3]\<close>, as \<open>psi\<close>) and \<open>self.d.gradient\<close>.\<close>

record gradient_buffers =
  psi_gradient :: "(real \<times> real \<times> real) list"
  d_gradient :: real

definition scale4 :: "real \<Rightarrow> quad \<Rightarrow> quad" where
  "scale4 w = (\<lambda>(p, q, r, s). (w * p, w * q, w * r, w * s))"

definition add4 :: "quad \<Rightarrow> quad \<Rightarrow> quad" where
  "add4 = (\<lambda>(p, q, r, s) (p', q', r', s'). (p + p', q + q', r + r', s + s'))"

text \<open>\<open>.sum(axis=0).sum(axis=0)\<close>: the sum over the observations (and over the axis of
  size one), leaving an \<open>[n_terms, 4]\<close> array.\<close>

definition sum_observations :: "nat \<Rightarrow> tensor \<Rightarrow> quad list" where
  "sum_observations T G = foldr (map2 add4) G (replicate T (0, 0, 0, 0))"

text \<open>\<open>w[:, None, None, None] * G\<close> for a vector \<open>w\<close>, with numpy's broadcasting of the
  first axis.\<close>

definition weight_observations :: "array \<Rightarrow> tensor \<Rightarrow> failure + tensor" where
  "weight_observations w G =
     (if length w = length G then Inr (map2 (\<lambda>v row. map (scale4 v) row) w G)
      else if length w = 1 then Inr (map (map (scale4 (hd w))) G)
      else if length G = 1 then Inr (map (\<lambda>v. map (scale4 v) (hd G)) w)
      else Inl ValueError)"

text \<open>\<open>1.0 / grad_y\<close>: a zero entry leaves the reals.\<close>

definition reciprocal :: "array \<Rightarrow> failure + array" where
  "reciprocal g = (if 0 \<in> set g then Inl NonFinite else Inr (map (\<lambda>v. 1 / v) g))"

text \<open>\<open>update_grads(Y_untransformed, Kiy)\<close>; the two slice assignments overwrite the
  buffers, which always have the shapes of \<open>psi\<close> and \<open>d\<close>. (Called with
  \<open>return_covar_chain=True\<close>, \<open>fgrad_y_psi\<close> returns both tensors; the branch for a single
  tensor is there for totality and is never taken.)\<close>

definition update_grads ::
  "tanh_function \<Rightarrow> gradient_buffers \<Rightarrow> array \<Rightarrow> array \<Rightarrow> failure + gradient_buffers" where
  "update_grads tf g Y_untransformed Kiy =
     (let grad_y = fgrad_y tf Y_untransformed in
      case fgrad_y_psi tf Y_untransformed True of
        Inl e \<Rightarrow> Inl e
      | Inr (grad_y_psi, None) \<Rightarrow> Inl ValueError
      | Inr (grad_y_psi, Some grad_psi) \<Rightarrow>
          (case reciprocal grad_y of
             Inl e \<Rightarrow> Inl e
           | Inr inv_grad_y \<Rightarrow>
               (case weight_observations inv_grad_y grad_y_psi of
                  Inl e \<Rightarrow> Inl e
                | Inr weighted_jac \<Rightarrow>
                    (case weight_observations Kiy grad_psi of
                       Inl e \<Rightarrow> Inl e
                     | Inr weighted_quad \<Rightarrow>
                         (let T = length (psi tf);
                              djac_dpsi = sum_observations T weighted_jac;
                              dquad_dpsi = sum_observations T weighted_quad;
                              warping_grads = map2 (\<lambda>q j. add4 (scale4 (- 1) q) j) dquad_dpsi djac_dpsi
                          in Inr (g\<lparr> psi_gradient := map (\<lambda>(p, q, r, s). (p, q, r)) warping_grads,
                                     d_gradient := comp4 3 (warping_grads ! 0) \<rparr>))))))"

subsection \<open>\<open>f_inv\<close> on a store of arrays\<close>

text \<open>To say which arrays \<open>f_inv\<close> mutates, arrays live in a store and are passed by
  address (an address the caller passes is allocated). \<open>z = z.copy()\<close> allocates; with
  \<open>y is None\<close> the initial guess is a new array, scaled in place by the hint; \<open>y -= update\<close>
  writes the array at the address of \<open>y\<close>. The arrays \<open>fy\<close>, \<open>fgrady\<close>, \<open>update\<close> are
  temporaries that no other name refers to and stay values. An exception leaves the store
  as it is at that point.\<close>

type_synonym address = nat

type_synonym store = "array list"

definition alloc :: "store \<Rightarrow> array \<Rightarrow> store \<times> address" where
  "alloc h a = (h @ [a], length h)"

function newton_loop_store ::
  "tanh_function \<Rightarrow> address \<Rightarrow> address \<Rightarrow> int \<Rightarrow> store \<Rightarrow> update \<Rightarrow> nat
     \<Rightarrow> store \<times> (failure + update \<times> nat)" where
  "newton_loop_store tf z y max_iterations h update it =
     (if it = 0 \<or> (exceeds update \<and> int it < max_iterations) then
        (case newton_step tf (h ! z) (h ! y) of
           Inl e \<Rightarrow> (h, Inl e)
         | Inr (y', u) \<Rightarrow>
             newton_loop_store tf z y max_iterations (h[y := y']) (Update u) (it + 1))
      else (h, Inr (update, it)))"
  by pat_completeness auto
termination
  by (relation "measure (\<lambda>(tf, z, y, max_iterations, h, update, it).
        nat (max max_iterations 1) - it)") auto

declare newton_loop_store.simps [simp del]

definition initial_guess_store ::
  "tanh_function \<Rightarrow> store \<Rightarrow> address \<Rightarrow> store \<times> (failure + address)" where
  "initial_guess_store tf h z =
     (case alloc h (sign_guess (h ! z)) of (h', y) \<Rightarrow>
        (case initial_y tf of
           None \<Rightarrow> (h', Inr y)
         | Some hint \<Rightarrow>
             (case inplace2 (*) (h' ! y) hint of
                Inl e \<Rightarrow> (h', Inl e)
              | Inr y0 \<Rightarrow> (h'[y := y0], Inr y))))"

text \<open>The result names the address returned and, as \<open>result_y\<close>, what the array there
  holds on return.\<close>

definition f_inv_store ::
  "tanh_function \<Rightarrow> store \<Rightarrow> address \<Rightarrow> int \<Rightarrow> address option
     \<Rightarrow> store \<times> (failure + address \<times> inv_result)" where
  "f_inv_store tf h z_arg max_iterations y_arg =
     (case alloc h (h ! z_arg) of (h1, z) \<Rightarrow>
        (case (case y_arg of None \<Rightarrow> initial_guess_store tf h1 z | Some y \<Rightarrow> (h1, Inr y)) of
           (h2, Inl e) \<Rightarrow> (h2, Inl e)
         | (h2, Inr y) \<Rightarrow>
             (case newton_loop_store tf z y max_iterations h2 Infinity 0 of
                (h3, Inl e) \<Rightarrow> (h3, Inl e)
              | (h3, Inr (update, it)) \<Rightarrow>
                  (h3, Inr (y, \<lparr> result_y = h3 ! y, iterations = it, last_update = update,
                                  printed_lines = (if int it = max_iterations
                                    then [Warning_line, Sum_line (np_sum update)] else []) \<rparr>)))))"

text \<open>The gradient as the specification words it: the Jacobian term
  \<open>\<Sum>\<^sub>n (1 / jacobian(y\<^sub>n)) * parameter_jacobian(y\<^sub>n)\<close>, the quadratic term
  \<open>\<Sum>\<^sub>n Kiy\<^sub>n * covariance_chain(y\<^sub>n)\<close>, their difference, and the buffers holding the
  \<open>(a, b, c)\<close> slice of every term and the \<open>d\<close> slice of term \<open>0\<close>. \<open>G\<close> and \<open>C\<close> are the
  two tensors of \<open>fgrad_y_psi\<close>; position \<open>k\<close> of the last axis is parameter \<open>a\<close>, \<open>b\<close>,
  \<open>c\<close>, \<open>d\<close> for \<open>k = 0, 1, 2, 3\<close>.\<close>

definition jacobian_grad :: "tanh_function \<Rightarrow> array \<Rightarrow> tensor \<Rightarrow> nat \<Rightarrow> nat \<Rightarrow> real" where
  "jacobian_grad tf Y G i k = (\<Sum>n<length Y. (1 / (fgrad_y tf Y ! n)) * comp4 k (G ! n ! i))"

definition quadratic_grad :: "array \<Rightarrow> tensor \<Rightarrow> nat \<Rightarrow> nat \<Rightarrow> real" where
  "quadratic_grad Kiy C i k = (\<Sum>n<length Kiy. Kiy ! n * comp4 k (C ! n ! i))"

definition total_grad :: "tanh_function \<Rightarrow> array \<Rightarrow> array \<Rightarrow> tensor \<Rightarrow> tensor \<Rightarrow> nat \<Rightarrow> nat \<Rightarrow> real" where
  "total_grad tf Y Kiy G C i k = jacobian_grad tf Y G i k - quadratic_grad Kiy C i k"

definition written_gradients ::
  "tanh_function \<Rightarrow> array \<Rightarrow> array \<Rightarrow> tensor \<Rightarrow> tensor \<Rightarrow> gradient_buffers" where
  "written_gradients tf Y Kiy G C =
     \<lparr> psi_gradient = map (\<lambda>i. (total_grad tf Y Kiy G C i 0, total_grad tf Y Kiy G C i 1,
                                 total_grad tf Y Kiy G C i 2)) [0..<length (psi tf)],
       d_gradient = total_grad tf Y Kiy G C 0 3 \<rparr>"

subsection \<open>64-bit floats\<close>

text \<open>
  Two properties of the module, that \<open>f\<close> is increasing and that \<open>fgrad_y\<close> is positive,
  are decided by rounding and overflow. For them \<open>f\<close> and \<open>fgrad_y\<close> are also embedded
  over IEEE 754 binary64 numbers with the default rounding (to nearest, ties to even).
  A float is a finite value, an infinity or \<open>nan\<close>; a finite value is the real number it
  denotes (the two zeros are identified, they compare equal and play no part below).
\<close>

datatype float64 = Finite real | PInf | MInf | NaN

text \<open>Rounding a real number to the nearest integer, ties to the even one.\<close>

definition round_half_even :: "real \<Rightarrow> int" where
  "round_half_even m =
     (let k = \<lfloor>m\<rfloor> in
        if m - of_int k < 1 / 2 then k
        else if 1 / 2 < m - of_int k then k + 1
        else if even k then k else k + 1)"

text \<open>The doubles around \<open>x\<close> are the multiples of \<open>ulp x\<close>: in the binade
  \<open>2 ^ e \<le> \<bar>x\<bar> < 2 ^ (e + 1)\<close> they are \<open>2 ^ (e - 52)\<close> apart (53 significant bits), and
  below \<open>2 ^ (- 1022)\<close> (the subnormal numbers) they are \<open>2 ^ (- 1074)\<close> apart.\<close>

definition exponent :: "real \<Rightarrow> int" where
  "exponent x = max \<lfloor>log 2 \<bar>x\<bar>\<rfloor> (- 1022)"

definition ulp :: "real \<Rightarrow> real" where
  "ulp x = 2 powr (of_int (exponent x) - 52)"

text \<open>Rounding to nearest with an unbounded exponent range.\<close>

definition rne :: "real \<Rightarrow> real" where
  "rne x = of_int (round_half_even (x / ulp x)) * ulp x"

text \<open>The result of an operation whose exact value is \<open>x\<close>. The largest double is
  \<open>2 ^ 1024 - 2 ^ 971\<close>; a value that rounding would take beyond it, that is one from
  \<open>2 ^ 1024 - 2 ^ 970\<close> on, overflows to an infinity.\<close>

definition overflow_threshold :: real where
  "overflow_threshold = 2 ^ 1024 - 2 ^ 970"

definition round64 :: "real \<Rightarrow> float64" where
  "round64 x =
     (if overflow_threshold \<le> x then PInf
      else if x \<le> - overflow_threshold then MInf
      else Finite (rne x))"

text \<open>A real number that is a double.\<close>

definition is_float64 :: "real \<Rightarrow> bool" where
  "is_float64 x \<longleftrightarrow> rne x = x \<and> \<bar>x\<bar> < overflow_threshold"

text \<open>Negation, \<open>+\<close>, \<open>-\<close> and \<open>*\<close> of numpy on doubles: \<open>inf - inf\<close> and \<open>0 * inf\<close> are
  \<open>nan\<close>, and \<open>nan\<close> propagates.\<close>

fun fneg :: "float64 \<Rightarrow> float64" where
  "fneg (Finite x) = Finite (- x)"
| "fneg PInf = MInf"
| "fneg MInf = PInf"
| "fneg NaN = NaN"

fun fadd :: "float64 \<Rightarrow> float64 \<Rightarrow> float64" where
  "fadd (Finite x) (Finite y) = round64 (x + y)"
| "fadd NaN y = NaN"
| "fadd x NaN = NaN"
| "fadd PInf MInf = NaN"
| "fadd MInf PInf = NaN"
| "fadd PInf y = PInf"
| "fadd x PInf = PInf"
| "fadd MInf y = MInf"
| "fadd x MInf = MInf"

definition fsub :: "float64 \<Rightarrow> float64 \<Rightarrow> float64" where
  "fsub x y = fadd x (fneg y)"

fun fmul :: "float64 \<Rightarrow> float64 \<Rightarrow> float64" where
  "fmul (Finite x) (Finite y) = round64 (x * y)"
| "fmul NaN y = NaN"
| "fmul x NaN = NaN"
| "fmul (Finite x) y = (if x = 0 then NaN else if 0 < x then y else fneg y)"
| "fmul x (Finite y) = (if y = 0 then NaN else if 0 < y then x else fneg x)"
| "fmul PInf y = y"
| "fmul MInf y = fneg y"

text \<open>The comparisons \<open><=\<close> and \<open><\<close>; every comparison with \<open>nan\<close> is false.\<close>

fun fle :: "float64 \<Rightarrow> float64 \<Rightarrow> bool" where
  "fle (Finite x) (Finite y) \<longleftrightarrow> x \<le> y"
| "fle NaN y \<longleftrightarrow> False"
| "fle x NaN \<longleftrightarrow> False"
| "fle MInf y \<longleftrightarrow> True"
| "fle x PInf \<longleftrightarrow> True"
| "fle x y \<longleftrightarrow> False"

definition fless :: "float64 \<Rightarrow> float64 \<Rightarrow> bool" where
  "fless x y \<longleftrightarrow> fle x y \<and> x \<noteq> y"

text \<open>\<open>np.tanh\<close> is computed by the platform's mathematical library, whose rounding the
  module does not determine: its action on finite doubles is the parameter \<open>th\<close>, and
  \<open>tanh(\<plusminus>inf) = \<plusminus>1\<close>. The instance \<open>tanh_rn\<close> is the correctly rounded hyperbolic
  tangent.\<close>

fun tanh64 :: "(real \<Rightarrow> real) \<Rightarrow> float64 \<Rightarrow> float64" where
  "tanh64 th (Finite x) = Finite (th x)"
| "tanh64 th PInf = Finite 1"
| "tanh64 th MInf = Finite (- 1)"
| "tanh64 th NaN = NaN"

definition tanh_rn :: "real \<Rightarrow> real" where
  "tanh_rn x = rne (tanh x)"

subsection \<open>\<open>f\<close> and \<open>fgrad_y\<close> on floats\<close>

text \<open>\<open>f\<close> with every operation rounded: \<open>z = d * y.copy()\<close>, then for each row of
  \<open>psi\<close>, \<open>z += a * np.tanh(b * (y + c))\<close>. The parameters are doubles, given by the
  real numbers they denote.\<close>

definition tanh_term_float64 ::
  "(real \<Rightarrow> real) \<Rightarrow> float64 \<Rightarrow> real \<times> real \<times> real \<Rightarrow> float64" where
  "tanh_term_float64 th v =
     (\<lambda>(a, b, c). fmul (Finite a) (tanh64 th (fmul (Finite b) (fadd v (Finite c)))))"

definition f_term_float64 ::
  "(real \<Rightarrow> real) \<Rightarrow> float64 list \<Rightarrow> float64 list \<Rightarrow> real \<times> real \<times> real \<Rightarrow> float64 list" where
  "f_term_float64 th y z p = map2 fadd z (map (\<lambda>v. tanh_term_float64 th v p) y)"

definition f_float64 :: "(real \<Rightarrow> real) \<Rightarrow> tanh_function \<Rightarrow> float64 list \<Rightarrow> float64 list" where
  "f_float64 th tf y = foldl (f_term_float64 th y) (map (fmul (Finite (d tf))) y) (psi tf)"

text \<open>\<open>fgrad_y\<close> with every operation rounded, one entry \<open>v\<close> of \<open>y\<close> at a time:
  \<open>S = b * (v + c)\<close>, \<open>R = np.tanh(S)\<close>, \<open>D = 1 - R ** 2\<close> (the square is \<open>R * R\<close>), the
  product \<open>a * b * D\<close> taken from the left, the sum over the terms, and \<open>d +\<close> that sum.
  \<open>fsum\<close> adds the rows in their order, starting from the first; the empty sum is \<open>0.0\<close>.
  (The properties below are about the sign of the result, which does not depend on the
  order in which numpy adds the rows.)\<close>

definition jacobian_term_float64 ::
  "(real \<Rightarrow> real) \<Rightarrow> float64 \<Rightarrow> real \<times> real \<times> real \<Rightarrow> float64" where
  "jacobian_term_float64 th v =
     (\<lambda>(a, b, c).
        let S = fmul (Finite b) (fadd v (Finite c));
            R = tanh64 th S;
            D = fsub (Finite 1) (fmul R R)
        in fmul (fmul (Finite a) (Finite b)) D)"

fun fsum :: "float64 list \<Rightarrow> float64" where
  "fsum [] = Finite 0"
| "fsum (x # xs) = foldl fadd x xs"

definition fgrad_y_float64 ::
  "(real \<Rightarrow> real) \<Rightarrow> tanh_function \<Rightarrow> float64 list \<Rightarrow> float64 list" where
  "fgrad_y_float64 th tf y =
     map (\<lambda>v. fadd (Finite (d tf)) (fsum (map (jacobian_term_float64 th v) (psi tf)))) y"

text \<open>The scalar function that \<open>f_float64\<close> applies to each entry (lemma
  \<open>f_float64_map\<close>).\<close>

definition f1_float64 :: "(real \<Rightarrow> real) \<Rightarrow> tanh_function \<Rightarrow> float64 \<Rightarrow> float64" where
  "f1_float64 th tf v =
     foldl (\<lambda>z p. fadd z (tanh_term_float64 th v p)) (fmul (Finite (d tf)) v) (psi tf)"

section \<open>Properties\<close>

subsection \<open>The array functions act entrywise\<close>

lemma foldl_f_term:
  "length z = length y \<Longrightarrow>
   foldl (f_term y) z ps =
     map2 (\<lambda>zv v. zv + (\<Sum>(a, b, c)\<leftarrow>ps. a * tanh (b * (v + c)))) z y"
proof (induction ps arbitrary: z)
  case Nil
  then show ?case by (simp add: map2_map_map list_eq_iff_nth_eq)
next
  case (Cons p ps)
  obtain a b c where p: "p = (a, b, c)" by (cases p)
  have len: "length (f_term y z p) = length y"
    using Cons.prems by (simp add: f_term_def p)
  show ?case
    using Cons.prems Cons.IH [OF len]
    by (simp add: f_term_def p list_eq_iff_nth_eq add.assoc)
qed

lemma f_map: "f tf y = map (f1 tf) y"
  by (simp add: f_def foldl_f_term f1_def list_eq_iff_nth_eq)

lemma sum_axis0_length:
  "\<forall>r \<in> set rows. length r = N \<Longrightarrow> length (sum_axis0 N rows) = N"
  by (induction rows) (simp_all add: sum_axis0_def)

lemma sum_axis0_nth:
  "\<forall>r \<in> set rows. length r = N \<Longrightarrow> n < N \<Longrightarrow>
   sum_axis0 N rows ! n = (\<Sum>r\<leftarrow>rows. r ! n)"
proof (induction rows)
  case Nil
  then show ?case by (simp add: sum_axis0_def)
next
  case (Cons r rows)
  have "length (sum_axis0 N rows) = N"
    using Cons.prems by (simp add: sum_axis0_length)
  then show ?case
    using Cons by (simp add: sum_axis0_def)
qed

lemma fgrad_rows:
  "map2 (\<lambda>(a, b, c). map (\<lambda>x. a * b * x)) ps
      (map (map (\<lambda>r. 1 - r ^ 2)) (map (map tanh)
         (map (\<lambda>(a, b, c). map (\<lambda>v. b * (v + c)) y) ps))) =
   map (\<lambda>(a, b, c). map (\<lambda>v. a * b * (1 - (tanh (b * (v + c))) ^ 2)) y) ps"
  by (simp add: list_eq_iff_nth_eq split: prod.splits)

lemma fgrad_rows_sum:
  "n < length y \<Longrightarrow>
   (\<Sum>r\<leftarrow>map (\<lambda>(a, b, c). map (\<lambda>v. a * b * (1 - (tanh (b * (v + c))) ^ 2)) y) ps. r ! n) =
   (\<Sum>(a, b, c)\<leftarrow>ps. a * b * (1 - (tanh (b * (y ! n + c))) ^ 2))"
  by (induction ps) (auto split: prod.splits)

lemma fgrad_y_map: "fgrad_y tf y = map (fgrad1 tf) y"
proof -
  let ?rows = "map (\<lambda>(a, b, c). map (\<lambda>v. a * b * (1 - (tanh (b * (v + c))) ^ 2)) y) (psi tf)"
  have len: "\<forall>r \<in> set ?rows. length r = length y"
    by auto
  have eq: "fgrad_y tf y = map (\<lambda>s. d tf + s) (sum_axis0 (length y) ?rows)"
    unfolding fgrad_y_def fgrad_y_precalc_def Let_def fst_conv fgrad_rows ..
  have len2: "length (sum_axis0 (length y) ?rows) = length y"
    by (rule sum_axis0_length [OF len])
  show ?thesis
    unfolding eq
  proof (rule nth_equalityI)
    show "length (map (\<lambda>s. d tf + s) (sum_axis0 (length y) ?rows)) = length (map (fgrad1 tf) y)"
      by (simp add: len2)
  next
    fix n
    assume "n < length (map (\<lambda>s. d tf + s) (sum_axis0 (length y) ?rows))"
    then have n: "n < length y"
      by (simp add: len2)
    have "sum_axis0 (length y) ?rows ! n =
          (\<Sum>(a, b, c)\<leftarrow>psi tf. a * b * (1 - (tanh (b * (y ! n + c))) ^ 2))"
      unfolding sum_axis0_nth [OF len n] by (rule fgrad_rows_sum [OF n])
    then show "map (\<lambda>s. d tf + s) (sum_axis0 (length y) ?rows) ! n = map (fgrad1 tf) y ! n"
      using n by (simp add: len2 fgrad1_def)
  qed
qed

subsection \<open>Monotonicity and positivity of the exact functions\<close>

lemma valid_row: "valid tf \<Longrightarrow> (a, b, c) \<in> set (psi tf) \<Longrightarrow> 0 < a \<and> 0 < b"
  by (auto simp: valid_def list_all_iff)

lemma tanh_terms_mono:
  assumes "valid tf" "u \<le> v"
  shows "(\<Sum>(a, b, c)\<leftarrow>psi tf. a * tanh (b * (u + c))) \<le>
         (\<Sum>(a, b, c)\<leftarrow>psi tf. a * tanh (b * (v + c)))"
proof (rule sum_list_mono)
  fix p
  assume p: "p \<in> set (psi tf)"
  obtain a b c where abc: "p = (a, b, c)" by (cases p)
  have pos: "0 < a" "0 < b"
    using valid_row [OF assms(1)] p abc by auto
  have "b * (u + c) \<le> b * (v + c)"
    using pos assms(2) by simp
  then have "a * tanh (b * (u + c)) \<le> a * tanh (b * (v + c))"
    using pos by simp
  then show "(case p of (a, b, c) \<Rightarrow> a * tanh (b * (u + c))) \<le>
             (case p of (a, b, c) \<Rightarrow> a * tanh (b * (v + c)))"
    by (simp add: abc)
qed

lemma f1_slope:
  assumes "valid tf" "u \<le> v"
  shows "d tf * (v - u) \<le> f1 tf v - f1 tf u"
  using tanh_terms_mono [OF assms] by (simp add: f1_def algebra_simps)

lemma f1_strict_mono:
  assumes "valid tf" "u < v"
  shows "f1 tf u < f1 tf v"
proof -
  have "0 < d tf * (v - u)"
    using assms by (simp add: valid_def)
  moreover have "d tf * (v - u) \<le> f1 tf v - f1 tf u"
    using assms by (intro f1_slope) simp_all
  ultimately show ?thesis by simp
qed

lemma jacobian_terms_bounds:
  assumes "valid tf"
  shows "0 \<le> (\<Sum>(a, b, c)\<leftarrow>psi tf. a * b * (1 - (tanh (b * (v + c))) ^ 2))"
    and "(\<Sum>(a, b, c)\<leftarrow>psi tf. a * b * (1 - (tanh (b * (v + c))) ^ 2)) \<le>
         (\<Sum>(a, b, c)\<leftarrow>psi tf. a * b)"
proof -
  have row: "0 \<le> a * b * (1 - (tanh (b * (v + c))) ^ 2) \<and>
             a * b * (1 - (tanh (b * (v + c))) ^ 2) \<le> a * b"
    if "(a, b, c) \<in> set (psi tf)" for a b c
  proof -
    have pos: "0 < a * b"
      using valid_row [OF assms that] by simp
    have "\<bar>tanh (b * (v + c))\<bar> < 1"
      using tanh_real_lt_1 [of "b * (v + c)"] tanh_real_gt_neg1 [of "b * (v + c)"] by simp
    then have "(tanh (b * (v + c))) ^ 2 < 1"
      by (simp add: abs_square_less_1)
    then have D: "0 \<le> 1 - (tanh (b * (v + c))) ^ 2" "1 - (tanh (b * (v + c))) ^ 2 \<le> 1"
      by simp_all
    have ab: "0 \<le> a * b"
      using pos by simp
    have "0 \<le> a * b * (1 - (tanh (b * (v + c))) ^ 2)"
      by (rule mult_nonneg_nonneg [OF ab D(1)])
    moreover have "a * b * (1 - (tanh (b * (v + c))) ^ 2) \<le> a * b * 1"
      by (rule mult_left_mono [OF D(2) ab])
    ultimately show ?thesis by simp
  qed
  show "0 \<le> (\<Sum>(a, b, c)\<leftarrow>psi tf. a * b * (1 - (tanh (b * (v + c))) ^ 2))"
    by (rule sum_list_nonneg) (use row in auto)
  show "(\<Sum>(a, b, c)\<leftarrow>psi tf. a * b * (1 - (tanh (b * (v + c))) ^ 2)) \<le>
        (\<Sum>(a, b, c)\<leftarrow>psi tf. a * b)"
    by (rule sum_list_mono) (use row in auto)
qed

lemma fgrad1_bounds:
  assumes "valid tf"
  shows "d tf \<le> fgrad1 tf v" and "fgrad1 tf v \<le> d tf + (\<Sum>(a, b, c)\<leftarrow>psi tf. a * b)"
    and "0 < fgrad1 tf v"
proof -
  show 1: "d tf \<le> fgrad1 tf v"
    using jacobian_terms_bounds(1) [OF assms, of v] by (simp add: fgrad1_def)
  show "fgrad1 tf v \<le> d tf + (\<Sum>(a, b, c)\<leftarrow>psi tf. a * b)"
    using jacobian_terms_bounds(2) [OF assms, of v] by (simp add: fgrad1_def)
  show "0 < fgrad1 tf v"
    using 1 assms by (simp add: valid_def)
qed

subsection \<open>Rounding to an integer\<close>

lemma round_half_even_of_int [simp]: "round_half_even (of_int k) = k"
  by (simp add: round_half_even_def)

lemma round_half_even_cases:
  "round_half_even m = \<lfloor>m\<rfloor> \<or> round_half_even m = \<lfloor>m\<rfloor> + 1"
  by (simp add: round_half_even_def Let_def)

lemma round_half_even_ge_floor: "\<lfloor>m\<rfloor> \<le> round_half_even m"
  using round_half_even_cases [of m] by auto

lemma round_half_even_le_ceiling: "round_half_even m \<le> \<lceil>m\<rceil>"
proof (cases "m = of_int \<lfloor>m\<rfloor>")
  case True
  then have "round_half_even m = \<lfloor>m\<rfloor>"
    by (simp add: round_half_even_def)
  then show ?thesis
    by (simp add: floor_le_ceiling)
next
  case False
  then have "\<lceil>m\<rceil> = \<lfloor>m\<rfloor> + 1"
    by (simp add: ceiling_altdef)
  then show ?thesis
    using round_half_even_cases [of m] by auto
qed

lemma round_half_even_mono:
  assumes "m \<le> n"
  shows "round_half_even m \<le> round_half_even n"
proof (cases "\<lfloor>m\<rfloor> = \<lfloor>n\<rfloor>")
  case True
  then show ?thesis
    using assms by (auto simp: round_half_even_def Let_def)
next
  case False
  then have "\<lfloor>m\<rfloor> + 1 \<le> \<lfloor>n\<rfloor>"
    using floor_mono [OF assms] by simp
  then show ?thesis
    using round_half_even_cases [of m] round_half_even_ge_floor [of n] by auto
qed

lemma round_half_even_minus: "round_half_even (- m) = - round_half_even m"
proof (cases "m = of_int \<lfloor>m\<rfloor>")
  case True
  then obtain k where "m = of_int k" ..
  then show ?thesis
    using round_half_even_of_int [of "- k"] by simp
next
  case False
  then have fl: "\<lfloor>- m\<rfloor> = - \<lfloor>m\<rfloor> - 1"
    by (simp add: floor_minus ceiling_altdef)
  show ?thesis
    unfolding round_half_even_def Let_def fl by auto
qed

lemma round_half_even_le: "m \<le> of_int k \<Longrightarrow> round_half_even m \<le> k"
  using round_half_even_mono [of m "of_int k"] by simp

lemma round_half_even_ge: "of_int k \<le> m \<Longrightarrow> k \<le> round_half_even m"
  using round_half_even_mono [of "of_int k" m] by simp

subsection \<open>The binade of a real number\<close>

lemma ulp_pos [simp]: "0 < ulp x"
  by (simp add: ulp_def)

lemma ulp_nonneg [simp]: "0 \<le> ulp x"
  by (simp add: ulp_def)

lemma ulp_nonzero [simp]: "ulp x \<noteq> 0"
  by (simp add: ulp_def)

lemma exponent_minus [simp]: "exponent (- x) = exponent x"
  by (simp add: exponent_def)

lemma ulp_minus [simp]: "ulp (- x) = ulp x"
  by (simp add: ulp_def)

lemma exponent_eq:
  assumes "2 powr of_int e \<le> \<bar>x\<bar>" and "\<bar>x\<bar> < 2 powr of_int (e + 1)" and "- 1022 \<le> e"
  shows "exponent x = e"
proof -
  have "0 < \<bar>x\<bar>"
    using assms(1) powr_gt_zero [of 2 "of_int e"] by linarith
  then have "\<lfloor>log 2 \<bar>x\<bar>\<rfloor> = e"
    using assms by (simp add: floor_log_eq_powr_iff)
  then show ?thesis
    using assms(3) by (simp add: exponent_def)
qed

lemma exponent_ge: "- 1022 \<le> exponent x"
  by (simp add: exponent_def)

lemma below_next_binade:
  assumes "x \<noteq> 0"
  shows "\<bar>x\<bar> < 2 powr of_int (exponent x + 1)"
proof -
  have pos: "0 < \<bar>x\<bar>"
    using assms by simp
  have "\<bar>x\<bar> < 2 powr of_int (\<lfloor>log 2 \<bar>x\<bar>\<rfloor> + 1)"
    using floor_log_eq_powr_iff [OF pos, of 2 "\<lfloor>log 2 \<bar>x\<bar>\<rfloor>"] by simp
  also have "\<dots> \<le> 2 powr of_int (exponent x + 1)"
    by (rule powr_mono) (simp_all add: exponent_def)
  finally show ?thesis .
qed

lemma above_binade:
  assumes "x \<noteq> 0" and "- 1022 < exponent x"
  shows "2 powr of_int (exponent x) \<le> \<bar>x\<bar>"
proof -
  have pos: "0 < \<bar>x\<bar>"
    using assms by simp
  have "exponent x = \<lfloor>log 2 \<bar>x\<bar>\<rfloor>"
    using assms(2) by (simp add: exponent_def max_def split: if_splits)
  then show ?thesis
    using floor_log_eq_powr_iff [OF pos, of 2 "\<lfloor>log 2 \<bar>x\<bar>\<rfloor>"] by simp
qed

lemma exponent_mono:
  assumes "0 < x" and "x \<le> y"
  shows "exponent x \<le> exponent y"
proof -
  have "log 2 \<bar>x\<bar> \<le> log 2 \<bar>y\<bar>"
    using assms by simp
  then have "\<lfloor>log 2 \<bar>x\<bar>\<rfloor> \<le> \<lfloor>log 2 \<bar>y\<bar>\<rfloor>"
    by (rule floor_mono)
  then show ?thesis
    by (simp add: exponent_def)
qed

subsection \<open>Rounding to a double\<close>

lemma rne_zero [simp]: "rne 0 = 0"
  using round_half_even_of_int [of 0] by (simp add: rne_def)

lemma rne_minus: "rne (- x) = - rne x"
  by (simp add: rne_def round_half_even_minus)

lemma rne_nonneg: "0 \<le> x \<Longrightarrow> 0 \<le> rne x"
proof -
  assume "0 \<le> x"
  then have "0 \<le> x / ulp x"
    by simp
  then have "0 \<le> round_half_even (x / ulp x)"
    using round_half_even_ge [of 0 "x / ulp x"] by simp
  then show ?thesis
    by (simp add: rne_def)
qed

lemma ulp_scale: "2 ^ 52 * ulp x = 2 powr of_int (exponent x)"
proof -
  have "(2::real) powr of_int (exponent x) = 2 powr (52 + (of_int (exponent x) - 52))"
    by simp
  also have "\<dots> = 2 powr 52 * ulp x"
    unfolding ulp_def by (rule powr_add)
  finally show ?thesis
    by simp
qed

lemma ulp_scale': "2 ^ 53 * ulp x = 2 powr of_int (exponent x + 1)"
proof -
  have "(2::real) powr of_int (exponent x + 1) = 2 powr (53 + (of_int (exponent x) - 52))"
    by (simp add: add.commute)
  also have "\<dots> = 2 powr 53 * ulp x"
    unfolding ulp_def by (rule powr_add)
  finally show ?thesis
    by simp
qed

lemma rne_upper:
  assumes "0 < x"
  shows "rne x \<le> 2 powr of_int (exponent x + 1)"
proof -
  have "x < 2 powr of_int (exponent x + 1)"
    using below_next_binade [of x] assms by simp
  then have "x < 2 ^ 53 * ulp x"
    by (simp only: ulp_scale')
  then have "x / ulp x \<le> of_int (2 ^ 53)"
    by (simp add: pos_divide_le_eq)
  then have "round_half_even (x / ulp x) \<le> 2 ^ 53"
    by (rule round_half_even_le)
  then have "of_int (round_half_even (x / ulp x)) * ulp x \<le> of_int (2 ^ 53) * ulp x"
    by (intro mult_right_mono) (simp_all del: of_int_power of_int_numeral)
  then show ?thesis
    unfolding rne_def ulp_scale' [symmetric] by simp
qed

lemma rne_lower:
  assumes "0 < x" and "2 powr of_int (exponent x) \<le> x"
  shows "2 powr of_int (exponent x) \<le> rne x"
proof -
  have "2 ^ 52 * ulp x \<le> x"
    using assms(2) by (simp only: ulp_scale)
  then have "of_int (2 ^ 52) \<le> x / ulp x"
    by (simp add: pos_le_divide_eq)
  then have "2 ^ 52 \<le> round_half_even (x / ulp x)"
    by (rule round_half_even_ge)
  then have "of_int (2 ^ 52) * ulp x \<le> of_int (round_half_even (x / ulp x)) * ulp x"
    by (intro mult_right_mono) (simp_all del: of_int_power of_int_numeral)
  then show ?thesis
    unfolding rne_def ulp_scale [symmetric] by simp
qed

lemma rne_mono_pos:
  assumes "0 < x" and "x \<le> y"
  shows "rne x \<le> rne y"
proof (cases "exponent x = exponent y")
  case True
  then have u: "ulp x = ulp y"
    by (simp add: ulp_def)
  have "x / ulp y \<le> y / ulp y"
    using assms(2) by (simp add: divide_right_mono)
  then have "round_half_even (x / ulp y) \<le> round_half_even (y / ulp y)"
    by (rule round_half_even_mono)
  then show ?thesis
    by (simp add: rne_def u)
next
  case False
  then have less: "exponent x < exponent y"
    using exponent_mono [OF assms] by simp
  have y: "0 < y"
    using assms by simp
  have "- 1022 < exponent y"
    using less exponent_ge [of x] by simp
  then have "2 powr of_int (exponent y) \<le> y"
    using above_binade [of y] y by simp
  then have low: "2 powr of_int (exponent y) \<le> rne y"
    by (rule rne_lower [OF y])
  have "rne x \<le> 2 powr of_int (exponent x + 1)"
    by (rule rne_upper [OF assms(1)])
  also have "\<dots> \<le> 2 powr of_int (exponent y)"
    by (rule powr_mono) (use less in simp_all)
  finally show ?thesis
    using low by simp
qed

lemma rne_mono:
  assumes "x \<le> y"
  shows "rne x \<le> rne y"
proof -
  consider "0 < x" | "x \<le> 0" "0 \<le> y" | "y < 0"
    by linarith
  then show ?thesis
  proof cases
    case 1
    then show ?thesis
      by (rule rne_mono_pos [OF _ assms])
  next
    case 2
    have "rne x \<le> 0"
      using rne_nonneg [of "- x"] 2(1) by (simp add: rne_minus)
    moreover have "0 \<le> rne y"
      by (rule rne_nonneg [OF 2(2)])
    ultimately show ?thesis
      by simp
  next
    case 3
    have "rne (- y) \<le> rne (- x)"
      by (rule rne_mono_pos) (use 3 assms in simp_all)
    then show ?thesis
      by (simp add: rne_minus)
  qed
qed

lemma round_half_even_numeral [simp]: "round_half_even (numeral n) = numeral n"
  using round_half_even_of_int [of "numeral n"] by simp

lemma round_half_even_one [simp]: "round_half_even 1 = 1"
  using round_half_even_of_int [of 1] by simp

lemma rne_eval:
  assumes "2 powr of_int e \<le> \<bar>x\<bar>" and "\<bar>x\<bar> < 2 powr of_int (e + 1)" and "- 1022 \<le> e"
  shows "rne x = of_int (round_half_even (x / 2 powr of_int (e - 52))) * 2 powr of_int (e - 52)"
  using exponent_eq [OF assms] by (simp add: rne_def ulp_def)

lemma rne_exact:
  assumes "\<bar>m\<bar> < 2 ^ 53" and "- 1074 \<le> k"
  shows "rne (of_int m * 2 powr of_int k) = of_int m * 2 powr of_int k"
proof (cases "m = 0")
  case True
  then show ?thesis by simp
next
  case False
  define x :: real where "x = of_int m * 2 powr of_int k"
  have x0: "0 < \<bar>x\<bar>"
    using False by (simp add: x_def)
  have "\<bar>x\<bar> = \<bar>of_int m\<bar> * 2 powr of_int k"
    by (simp add: x_def abs_mult)
  also have "\<dots> < 2 ^ 53 * 2 powr of_int k"
  proof (rule mult_strict_right_mono)
    have "real_of_int \<bar>m\<bar> < real_of_int (2 ^ 53)"
      using assms(1) by (simp only: of_int_less_iff)
    then show "\<bar>real_of_int m\<bar> < 2 ^ 53"
      by simp
  qed simp
  also have "\<dots> = 2 powr of_int (k + 53)"
  proof -
    have "(2::real) powr of_int (k + 53) = 2 powr (53 + of_int k)"
      by (simp add: add.commute)
    also have "\<dots> = 2 powr 53 * 2 powr of_int k"
      by (rule powr_add)
    finally show ?thesis by simp
  qed
  finally have up: "\<bar>x\<bar> < 2 powr of_int (k + 53)" .
  have "log 2 \<bar>x\<bar> < of_int (k + 53)"
    using up x0 by (simp add: log_less_iff)
  then have "\<lfloor>log 2 \<bar>x\<bar>\<rfloor> < k + 53"
    by (simp add: floor_less_iff)
  then have e: "exponent x \<le> k + 52"
    using assms(2) by (simp add: exponent_def)
  define j where "j = nat (k + 52 - exponent x)"
  define u where "u = ulp x"
  have u: "0 < u"
    by (simp add: u_def)
  have j: "of_int k = of_int (exponent x) - 52 + real j"
    using e by (simp add: j_def)
  have "2 powr of_int k = u * 2 powr (real j)"
    unfolding j u_def ulp_def by (rule powr_add)
  then have k: "2 powr of_int k = u * 2 ^ j"
    by (simp add: powr_realpow)
  have "x / u = of_int (m * 2 ^ j)"
    using u by (simp add: x_def k)
  then have "round_half_even (x / u) = m * 2 ^ j"
    by (simp only: round_half_even_of_int)
  then have "rne x = of_int (m * 2 ^ j) * u"
    by (simp add: rne_def u_def)
  also have "\<dots> = x"
    by (simp add: x_def k)
  finally show ?thesis
    by (simp add: x_def)
qed

lemma rne_one [simp]: "rne 1 = 1"
  using rne_exact [of 1 0] by simp

lemma rne_minus_one [simp]: "rne (- 1) = - 1"
  by (simp add: rne_minus)

lemma rne_abs_le_one: "\<bar>x\<bar> \<le> 1 \<Longrightarrow> \<bar>rne x\<bar> \<le> 1"
  using rne_mono [of x 1] rne_mono [of "- 1" x] by (simp add: abs_le_iff rne_minus)

lemma rne_below_one: "rne (1 - 1 / 2 ^ 54) = 1"
proof -
  have "rne (1 - 1 / 2 ^ 54) =
        of_int (round_half_even ((1 - 1 / 2 ^ 54) / 2 powr of_int (- 1 - 52))) *
          2 powr of_int (- 1 - 52)"
    by (rule rne_eval) simp_all
  also have "\<dots> = 1"
    by (simp add: round_half_even_def powr_neg_numeral)
  finally show ?thesis .
qed

lemma rne_tie_2_53: "rne (2 ^ 53 + 1) = 2 ^ 53"
proof -
  have "rne (2 ^ 53 + 1) =
        of_int (round_half_even ((2 ^ 53 + 1) / 2 powr of_int (53 - 52))) *
          2 powr of_int (53 - 52)"
    by (rule rne_eval) simp_all
  also have "\<dots> = 2 ^ 53"
    by (simp add: round_half_even_def)
  finally show ?thesis .
qed

lemma tanh_saturated:
  fixes x :: real
  assumes "2 ^ 28 \<le> x"
  shows "1 - 1 / 2 ^ 54 \<le> tanh x" and "tanh x < 1"
proof -
  have "1 + x \<le> exp x"
    by (rule exp_ge_add_one_self)
  moreover have "2 ^ 28 \<le> 1 + x"
    using assms by simp
  ultimately have "2 ^ 28 \<le> exp x"
    by (rule order_trans [rotated])
  then have "(2 ^ 28) ^ 2 \<le> (exp x) ^ 2"
    by (intro power_mono) simp_all
  also have "(exp x) ^ 2 = exp (2 * x)"
    by (simp add: exp_double)
  finally have big: "2 ^ 56 \<le> exp (2 * x)"
    by simp
  define E where "E = exp (- 2 * x)"
  have "E = 1 / exp (2 * x)"
    by (simp add: E_def exp_minus field_simps)
  also have "\<dots> \<le> 1 / 2 ^ 56"
    using big by (intro divide_left_mono) simp_all
  finally have small: "E \<le> 1 / 2 ^ 56" .
  have pos: "0 < E"
    by (simp add: E_def)
  then have nz: "1 + E \<noteq> 0"
    by linarith
  have "tanh x = (1 - E) / (1 + E)"
    by (simp add: tanh_real_altdef E_def)
  then have "1 - tanh x = 2 * E / (1 + E)"
    using nz by (simp add: field_simps)
  also have "\<dots> \<le> 2 * E / 1"
    using pos by (intro divide_left_mono) simp_all
  also have "\<dots> \<le> 1 / 2 ^ 54"
    using small by simp
  finally show "1 - 1 / 2 ^ 54 \<le> tanh x"
    by simp
  show "tanh x < 1"
    by (rule tanh_real_lt_1)
qed

lemma tanh_rn_saturated: "2 ^ 28 \<le> x \<Longrightarrow> tanh_rn x = 1"
proof -
  assume x: "2 ^ 28 \<le> x"
  have "rne (1 - 1 / 2 ^ 54) \<le> rne (tanh x)"
    by (rule rne_mono) (rule tanh_saturated(1) [OF x])
  moreover have "rne (tanh x) \<le> rne 1"
    by (rule rne_mono) (use tanh_saturated(2) [OF x] in simp)
  ultimately show ?thesis
    unfolding tanh_rn_def rne_below_one rne_one by simp
qed

lemma tanh_rn_bounded: "\<bar>tanh_rn x\<bar> \<le> 1"
  unfolding tanh_rn_def
  by (rule rne_abs_le_one) (use tanh_real_lt_1 [of x] tanh_real_gt_neg1 [of x] in simp)

lemma tanh_rn_mono: "mono tanh_rn"
  by (rule monoI) (simp add: tanh_rn_def rne_mono)

subsection \<open>Order and arithmetic of doubles\<close>

lemma overflow_threshold_pos: "1 < overflow_threshold"
  by (simp add: overflow_threshold_def)

lemma fle_NaN [simp]: "\<not> fle x NaN" "\<not> fle NaN x"
  by (cases x; simp)+

lemma fle_PInf [simp]: "fle x PInf \<longleftrightarrow> x \<noteq> NaN"
  by (cases x) simp_all

lemma fle_MInf [simp]: "fle MInf x \<longleftrightarrow> x \<noteq> NaN"
  by (cases x) simp_all

lemma round64_not_NaN [simp]: "round64 x \<noteq> NaN"
  by (simp add: round64_def)

lemma round64_mono: "x \<le> y \<Longrightarrow> fle (round64 x) (round64 y)"
  using overflow_threshold_pos by (auto simp: round64_def rne_mono)

lemma round64_finite:
  "\<bar>x\<bar> < overflow_threshold \<Longrightarrow> round64 x = Finite (rne x)"
  by (auto simp: round64_def)

lemma round64_nonneg: "0 \<le> x \<Longrightarrow> fle (Finite 0) (round64 x)"
  using overflow_threshold_pos by (auto simp: round64_def rne_nonneg)

lemma fmul_pos_not_NaN: "0 < b \<Longrightarrow> x \<noteq> NaN \<Longrightarrow> fmul (Finite b) x \<noteq> NaN"
  by (cases x) simp_all

lemma fmul_pos_mono:
  assumes "0 < b" and "fle x y"
  shows "fle (fmul (Finite b) x) (fmul (Finite b) y)"
proof (cases x)
  case (Finite u)
  show ?thesis
  proof (cases y)
    case (Finite v)
    then show ?thesis
      using assms \<open>x = Finite u\<close> by (simp add: round64_mono)
  qed (use assms \<open>x = Finite u\<close> in simp_all)
next
  case PInf
  then show ?thesis
    using assms by (cases y) simp_all
next
  case MInf
  then show ?thesis
    using assms by (cases y) simp_all
next
  case NaN
  then show ?thesis
    using assms by simp
qed

lemma tanh64_finite:
  assumes "\<forall>x. \<bar>th x\<bar> \<le> 1" and "s \<noteq> NaN"
  shows "\<exists>r. tanh64 th s = Finite r \<and> \<bar>r\<bar> \<le> 1"
  using assms by (cases s) simp_all

lemma tanh64_mono:
  assumes "mono th" and "\<forall>x. \<bar>th x\<bar> \<le> 1" and "fle x y"
  shows "fle (tanh64 th x) (tanh64 th y)"
proof -
  have b: "- 1 \<le> th u \<and> th u \<le> 1" for u
    using assms(2) [rule_format, of u] by (simp add: abs_le_iff)
  show ?thesis
  proof (cases x)
    case (Finite u)
    then show ?thesis
      using assms(3) b monoD [OF assms(1)] by (cases y) simp_all
  next
    case PInf
    then show ?thesis
      using assms(3) by (cases y) simp_all
  next
    case MInf
    then show ?thesis
      using assms(3) b by (cases y) simp_all
  next
    case NaN
    then show ?thesis
      using assms(3) by simp
  qed
qed

lemma fmul_bounded:
  assumes "0 < a" and "a < overflow_threshold" and "\<bar>r\<bar> \<le> 1"
  shows "fmul (Finite a) (Finite r) = Finite (rne (a * r))"
proof -
  have "\<bar>a * r\<bar> \<le> a * 1"
    unfolding abs_mult using assms by (intro mult_mono) simp_all
  then have "\<bar>a * r\<bar> < overflow_threshold"
    using assms(2) by simp
  then show ?thesis
    by (simp add: round64_finite)
qed

lemma fadd_finite_not_NaN: "z \<noteq> NaN \<Longrightarrow> fadd z (Finite t) \<noteq> NaN"
  by (cases z) simp_all

lemma fadd_finite_mono:
  assumes "fle z z'" and "t \<le> t'"
  shows "fle (fadd z (Finite t)) (fadd z' (Finite t'))"
proof (cases z)
  case (Finite u)
  then show ?thesis
    using assms by (cases z') (simp_all add: round64_mono)
next
  case PInf
  then show ?thesis
    using assms by (cases z') simp_all
next
  case MInf
  then show ?thesis
    using assms by (cases z') simp_all
next
  case NaN
  then show ?thesis
    using assms by simp
qed

lemma is_float64_one [simp]: "is_float64 1"
  using overflow_threshold_pos by (simp add: is_float64_def)

lemma is_float64_zero [simp]: "is_float64 0"
  using overflow_threshold_pos by (simp add: is_float64_def)

lemma round64_float64: "is_float64 x \<Longrightarrow> round64 x = Finite x"
  by (simp add: is_float64_def round64_finite)

lemma is_float64_2_600: "is_float64 (2 ^ 600)"
  using rne_exact [of 1 600] by (simp add: is_float64_def overflow_threshold_def)

lemma is_float64_2_53: "is_float64 (2 ^ 53)"
  using rne_exact [of 1 53] by (simp add: is_float64_def overflow_threshold_def)

lemma is_float64_2_53_m1: "is_float64 (2 ^ 53 - 1)"
  using rne_exact [of "2 ^ 53 - 1" 0] by (simp add: is_float64_def overflow_threshold_def)

subsection \<open>The forward transform on doubles\<close>

lemma foldl_f_term_float64:
  "length z = length y \<Longrightarrow>
   foldl (f_term_float64 th y) z ps =
     map2 (\<lambda>zv v. foldl (\<lambda>z p. fadd z (tanh_term_float64 th v p)) zv ps) z y"
proof (induction ps arbitrary: z)
  case Nil
  then show ?case by (simp add: map2_map_map list_eq_iff_nth_eq)
next
  case (Cons p ps)
  have len: "length (f_term_float64 th y z p) = length y"
    using Cons.prems by (simp add: f_term_float64_def)
  show ?case
    using Cons.prems Cons.IH [OF len]
    by (simp add: f_term_float64_def list_eq_iff_nth_eq)
qed

lemma f_float64_map: "f_float64 th tf y = map (f1_float64 th tf) y"
  by (simp add: f_float64_def foldl_f_term_float64 f1_float64_def list_eq_iff_nth_eq)

lemma tanh_term_float64_finite:
  assumes "\<forall>x. \<bar>th x\<bar> \<le> 1" and "0 < a" and "a < overflow_threshold" and "0 < b"
  shows "\<exists>r. \<bar>r\<bar> \<le> 1 \<and>
             tanh64 th (fmul (Finite b) (fadd (Finite x) (Finite c))) = Finite r \<and>
             tanh_term_float64 th (Finite x) (a, b, c) = Finite (rne (a * r))"
proof -
  have "fmul (Finite b) (fadd (Finite x) (Finite c)) \<noteq> NaN"
    using assms(4) by (intro fmul_pos_not_NaN) simp_all
  then obtain r where r: "tanh64 th (fmul (Finite b) (fadd (Finite x) (Finite c))) = Finite r"
    "\<bar>r\<bar> \<le> 1"
    using tanh64_finite [OF assms(1)] by blast
  show ?thesis
    using r fmul_bounded [OF assms(2,3) r(2)] by (simp add: tanh_term_float64_def)
qed

lemma tanh_term_float64_mono:
  assumes "mono th" and "\<forall>x. \<bar>th x\<bar> \<le> 1"
    and "0 < a" and "a < overflow_threshold" and "0 < b" and "x \<le> y"
  shows "\<exists>s t. tanh_term_float64 th (Finite x) (a, b, c) = Finite s \<and>
               tanh_term_float64 th (Finite y) (a, b, c) = Finite t \<and> s \<le> t"
proof -
  obtain r where r: "\<bar>r\<bar> \<le> 1"
    "tanh64 th (fmul (Finite b) (fadd (Finite x) (Finite c))) = Finite r"
    "tanh_term_float64 th (Finite x) (a, b, c) = Finite (rne (a * r))"
    using tanh_term_float64_finite [OF assms(2-5)] by blast
  obtain q where q: "\<bar>q\<bar> \<le> 1"
    "tanh64 th (fmul (Finite b) (fadd (Finite y) (Finite c))) = Finite q"
    "tanh_term_float64 th (Finite y) (a, b, c) = Finite (rne (a * q))"
    using tanh_term_float64_finite [OF assms(2-5)] by blast
  have "fle (fadd (Finite x) (Finite c)) (fadd (Finite y) (Finite c))"
    using assms(6) by (simp add: round64_mono)
  then have "fle (fmul (Finite b) (fadd (Finite x) (Finite c)))
                 (fmul (Finite b) (fadd (Finite y) (Finite c)))"
    by (rule fmul_pos_mono [OF assms(5)])
  then have "fle (Finite r) (Finite q)"
    using tanh64_mono [OF assms(1,2)] r(2) q(2) by metis
  then have "a * r \<le> a * q"
    using assms(3) by simp
  then have "rne (a * r) \<le> rne (a * q)"
    by (rule rne_mono)
  then show ?thesis
    using r(3) q(3) by simp
qed

lemma foldl_tanh_terms_mono:
  assumes "mono th" and "\<forall>x. \<bar>th x\<bar> \<le> 1"
    and "list_all (\<lambda>(a, b, c). 0 < a \<and> a < overflow_threshold \<and> 0 < b) ps"
    and "x \<le> y" and "fle z z'"
  shows "fle (foldl (\<lambda>z p. fadd z (tanh_term_float64 th (Finite x) p)) z ps)
             (foldl (\<lambda>z p. fadd z (tanh_term_float64 th (Finite y) p)) z' ps)"
  using assms(3,5)
proof (induction ps arbitrary: z z')
  case Nil
  then show ?case by simp
next
  case (Cons p ps)
  obtain a b c where p: "p = (a, b, c)" by (cases p)
  have abc: "0 < a" "a < overflow_threshold" "0 < b"
    using Cons.prems(1) by (simp_all add: p)
  obtain s t where st: "tanh_term_float64 th (Finite x) (a, b, c) = Finite s"
    "tanh_term_float64 th (Finite y) (a, b, c) = Finite t" "s \<le> t"
    using tanh_term_float64_mono [OF assms(1,2) abc assms(4)] by blast
  have "fle (fadd z (Finite s)) (fadd z' (Finite t))"
    by (rule fadd_finite_mono [OF Cons.prems(2) st(3)])
  then show ?case
    using Cons.IH [of "fadd z (Finite s)" "fadd z' (Finite t)"] Cons.prems(1)
    by (simp add: p st)
qed

lemma f1_float64_mono:
  assumes "mono th" and "\<forall>x. \<bar>th x\<bar> \<le> 1" and "valid tf"
    and "list_all (\<lambda>(a, b, c). a < overflow_threshold) (psi tf)" and "x \<le> y"
  shows "fle (f1_float64 th tf (Finite x)) (f1_float64 th tf (Finite y))"
proof -
  have ps: "list_all (\<lambda>(a, b, c). 0 < a \<and> a < overflow_threshold \<and> 0 < b) (psi tf)"
    using assms(3,4) by (auto simp: valid_def list_all_iff)
  have "d tf * x \<le> d tf * y"
    using assms(3,5) by (simp add: valid_def)
  then have "fle (fmul (Finite (d tf)) (Finite x)) (fmul (Finite (d tf)) (Finite y))"
    by (simp add: round64_mono)
  then show ?thesis
    unfolding f1_float64_def by (rule foldl_tanh_terms_mono [OF assms(1,2) ps assms(5)])
qed

lemma f_float64_saturated:
  assumes "is_float64 y" and "2 ^ 28 \<le> y" and "y + 1 < overflow_threshold"
  shows "f_float64 tanh_rn (one_term 1 1 0 1) [Finite y] = [Finite (rne (y + 1))]"
proof -
  have y: "round64 y = Finite y"
    by (rule round64_float64 [OF assms(1)])
  have "\<bar>y + 1\<bar> < overflow_threshold"
    using assms(2,3) by simp
  then have y1: "round64 (y + 1) = Finite (rne (y + 1))"
    by (rule round64_finite)
  show ?thesis
    by (simp add: f_float64_def f_term_float64_def tanh_term_float64_def one_term_def y
        tanh_rn_saturated [OF assms(2)] round64_float64 y1)
qed

text \<open>
  Claim C2, as stated: with every \<open>a_i > 0\<close>, \<open>b_i > 0\<close> and \<open>d > 0\<close>, \<open>y1 < y2\<close> implies
  \<open>f(y1) < f(y2)\<close>. The exact function is strictly increasing (lemma \<open>f1_strict_mono\<close>),
  the computed one is not: rounding merges neighbours. With \<open>a = b = d = 1\<close> and \<open>c = 0\<close>
  the doubles \<open>2 ^ 53 - 1 < 2 ^ 53\<close> both give \<open>d * y = y\<close>, \<open>tanh y = 1.0\<close>, and
  \<open>y + 1.0\<close> rounds to \<open>2 ^ 53\<close> for both (for the second one as a tie, to the even
  neighbour).
\<close>

theorem f_float64_not_strict_counterexample:
  "valid (one_term 1 1 0 1) \<and> is_float64 (2 ^ 53 - 1) \<and> is_float64 (2 ^ 53) \<and>
   (2 ^ 53 - 1 :: real) < 2 ^ 53 \<and>
   f_float64 tanh_rn (one_term 1 1 0 1) [Finite (2 ^ 53 - 1)] = [Finite (2 ^ 53)] \<and>
   f_float64 tanh_rn (one_term 1 1 0 1) [Finite (2 ^ 53)] = [Finite (2 ^ 53)] \<and>
   \<not> fless (f_float64 tanh_rn (one_term 1 1 0 1) [Finite (2 ^ 53 - 1)] ! 0)
            (f_float64 tanh_rn (one_term 1 1 0 1) [Finite (2 ^ 53)] ! 0)"
proof -
  have t: "(2 ^ 53 :: real) + 1 < overflow_threshold" "(2 ^ 53 - 1 :: real) + 1 < overflow_threshold"
    by (simp_all add: overflow_threshold_def)
  have 1: "f_float64 tanh_rn (one_term 1 1 0 1) [Finite (2 ^ 53 - 1)] = [Finite (2 ^ 53)]"
    using f_float64_saturated [OF is_float64_2_53_m1 _ t(2)] is_float64_2_53
    by (simp add: is_float64_def)
  have 2: "f_float64 tanh_rn (one_term 1 1 0 1) [Finite (2 ^ 53)] = [Finite (2 ^ 53)]"
    using f_float64_saturated [OF is_float64_2_53 _ t(1)] rne_tie_2_53
    by simp
  have v: "valid (one_term 1 1 0 1)"
    by (simp add: valid_def one_term_def)
  show ?thesis
    unfolding 1 2 using v is_float64_2_53 is_float64_2_53_m1 by (simp add: fless_def)
qed

text \<open>
  Claim C2, amended: with finite parameters, every \<open>a_i > 0\<close>, \<open>b_i > 0\<close> and \<open>d > 0\<close>,
  \<open>TanhFunction.f\<close> is nondecreasing in each entry: where the finite entry of one input
  array is at most the entry of another, \<open>y1 \<le> y2\<close>, the entries of the results compare
  \<open>f(y1) <= f(y2)\<close> (they may be infinite by overflow, never \<open>nan\<close>). This uses of
  \<open>np.tanh\<close> that it is nondecreasing with values in \<open>[-1, 1]\<close>.
\<close>

theorem f_float64_nondecreasing:
  assumes "mono th" and "\<forall>x. \<bar>th x\<bar> \<le> 1"
    and "valid tf" and "list_all (\<lambda>(a, b, c). a < overflow_threshold) (psi tf)"
    and "length ys1 = length ys2" and "n < length ys1"
    and "ys1 ! n = Finite v1" and "ys2 ! n = Finite v2" and "v1 \<le> v2"
  shows "fle (f_float64 th tf ys1 ! n) (f_float64 th tf ys2 ! n)"
  using assms(5-8) f1_float64_mono [OF assms(1-4,9)] by (simp add: f_float64_map)

theorem f_float64_nondecreasing_witness:
  "mono tanh_rn \<and> (\<forall>x. \<bar>tanh_rn x\<bar> \<le> 1) \<and> valid (one_term 1 1 0 1) \<and>
   fle (f_float64 tanh_rn (one_term 1 1 0 1) [Finite 0] ! 0)
       (f_float64 tanh_rn (one_term 1 1 0 1) [Finite 1] ! 0)"
  using f_float64_nondecreasing [of tanh_rn "one_term 1 1 0 1" "[Finite 0]" "[Finite 1]" 0 0 1]
    tanh_rn_mono tanh_rn_bounded overflow_threshold_pos
  by (simp add: valid_def one_term_def)

subsection \<open>The Jacobian on doubles\<close>

lemma fadd_nonneg:
  assumes "fle (Finite 0) x" and "fle (Finite 0) y"
  shows "fle (Finite 0) (fadd x y)"
proof (cases x)
  case (Finite u)
  then show ?thesis
    using assms by (cases y) (simp_all add: round64_nonneg)
next
  case PInf
  then show ?thesis
    using assms by (cases y) simp_all
qed (use assms in simp_all)

lemma foldl_fadd_nonneg:
  "fle (Finite 0) z \<Longrightarrow> \<forall>x \<in> set xs. fle (Finite 0) x \<Longrightarrow> fle (Finite 0) (foldl fadd z xs)"
  by (induction xs arbitrary: z) (simp_all add: fadd_nonneg)

lemma fsum_nonneg: "\<forall>x \<in> set xs. fle (Finite 0) x \<Longrightarrow> fle (Finite 0) (fsum xs)"
  by (cases xs) (simp_all add: foldl_fadd_nonneg)

lemma jacobian_term_float64_nonneg:
  assumes "\<forall>x. \<bar>th x\<bar> \<le> 1" and "0 < a" and "0 < b" and "a * b < overflow_threshold"
  shows "fle (Finite 0) (jacobian_term_float64 th (Finite x) (a, b, c))"
proof -
  have "fmul (Finite b) (fadd (Finite x) (Finite c)) \<noteq> NaN"
    using assms(3) by (intro fmul_pos_not_NaN) simp_all
  then obtain r where r: "tanh64 th (fmul (Finite b) (fadd (Finite x) (Finite c))) = Finite r"
    "\<bar>r\<bar> \<le> 1"
    using tanh64_finite [OF assms(1)] by blast
  have r2: "0 \<le> r * r" "r * r \<le> 1"
    using r(2) abs_square_le_1 [of r] by (simp_all add: power2_eq_square)
  have sq: "round64 (r * r) = Finite (rne (r * r))"
    using r2 overflow_threshold_pos by (simp add: round64_finite)
  have q: "0 \<le> rne (r * r)" "rne (r * r) \<le> 1"
    using rne_nonneg [OF r2(1)] rne_mono [OF r2(2)] by simp_all
  have D: "fsub (Finite 1) (Finite (rne (r * r))) = Finite (rne (1 - rne (r * r)))"
    using q overflow_threshold_pos by (simp add: fsub_def round64_finite)
  have D0: "0 \<le> rne (1 - rne (r * r))"
    using q by (intro rne_nonneg) simp
  have "0 < a * b"
    using assms(2,3) by simp
  then have ab: "round64 (a * b) = Finite (rne (a * b))" "0 \<le> rne (a * b)"
    using assms(4) by (simp_all add: round64_finite rne_nonneg)
  have "fle (Finite 0) (round64 (rne (a * b) * rne (1 - rne (r * r))))"
    by (rule round64_nonneg) (use ab(2) D0 in simp)
  then show ?thesis
    unfolding jacobian_term_float64_def Let_def prod.case r(1) fmul.simps(1) sq D ab(1) .
qed

lemma fadd_float64_pos:
  assumes "is_float64 dd" and "0 < dd" and "fle (Finite 0) s"
  shows "fless (Finite 0) (fadd (Finite dd) s)"
proof (cases s)
  case (Finite t)
  then have t: "0 \<le> t"
    using assms(3) by simp
  have "rne dd \<le> rne (dd + t)"
    by (rule rne_mono) (use t in simp)
  then have "0 < rne (dd + t)"
    using assms(1,2) by (simp add: is_float64_def)
  moreover have "- overflow_threshold < dd + t"
    using overflow_threshold_pos t assms(2) by linarith
  ultimately show ?thesis
    by (simp add: Finite fless_def round64_def)
qed (use assms(3) in \<open>simp_all add: fless_def\<close>)

lemma fgrad_y_float64_overflow:
  assumes "is_float64 a" and "2 ^ 28 \<le> a" and "overflow_threshold \<le> a * a"
  shows "fgrad_y_float64 tanh_rn (one_term a a 0 1) [Finite 1] = [NaN]"
proof -
  have r: "round64 a = Finite a"
    by (rule round64_float64 [OF assms(1)])
  have inf: "round64 (a * a) = PInf"
    using assms(3) by (simp add: round64_def)
  show ?thesis
    unfolding fgrad_y_float64_def jacobian_term_float64_def one_term_def Let_def
    by (simp add: round64_float64 r tanh_rn_saturated [OF assms(2)] fsub_def inf)
qed

text \<open>
  Claim C3, as stated: with every \<open>a_i > 0\<close>, \<open>b_i > 0\<close> and \<open>d > 0\<close>, every entry of
  \<open>fgrad_y\<close> is strictly positive at every finite input. The exact Jacobian is (lemma
  \<open>fgrad1_bounds\<close>), the computed one need not be: with \<open>a = b = 2 ^ 600\<close>, \<open>c = 0\<close>,
  \<open>d = 1\<close> and \<open>y = 1\<close> the product \<open>a * b\<close> overflows to \<open>inf\<close>, the tangent is
  saturated, \<open>D = 1 - 1.0 ** 2 = 0\<close>, and \<open>inf * 0\<close> makes the entry \<open>nan\<close>, which is not
  \<open>> 0\<close>.
\<close>

theorem fgrad_y_float64_nan_counterexample:
  "valid (one_term (2 ^ 600) (2 ^ 600) 0 1) \<and> is_float64 (2 ^ 600) \<and> is_float64 1 \<and>
   fgrad_y_float64 tanh_rn (one_term (2 ^ 600) (2 ^ 600) 0 1) [Finite 1] = [NaN] \<and>
   \<not> fless (Finite 0) (fgrad_y_float64 tanh_rn (one_term (2 ^ 600) (2 ^ 600) 0 1) [Finite 1] ! 0)"
proof -
  have g: "fgrad_y_float64 tanh_rn (one_term (2 ^ 600) (2 ^ 600) 0 1) [Finite 1] = [NaN]"
    by (rule fgrad_y_float64_overflow [OF is_float64_2_600])
      (simp_all add: overflow_threshold_def)
  show ?thesis
    unfolding g using is_float64_2_600 by (simp add: valid_def one_term_def fless_def)
qed

text \<open>
  Claim C3, amended: with finite parameters, every \<open>a_i > 0\<close>, \<open>b_i > 0\<close> and \<open>d > 0\<close>,
  in which no product \<open>a_i * b_i\<close> overflows, every entry of the array that
  \<open>TanhFunction.fgrad_y\<close> returns at a finite input compares \<open>> 0\<close> (it is \<open>+inf\<close> when the
  sum overflows). This uses of \<open>np.tanh\<close> that its values lie in \<open>[-1, 1]\<close>.
\<close>

theorem fgrad_y_float64_positive:
  assumes "\<forall>x. \<bar>th x\<bar> \<le> 1"
    and "valid tf" and "is_float64 (d tf)"
    and "list_all (\<lambda>(a, b, c). a * b < overflow_threshold) (psi tf)"
    and "n < length y" and "y ! n = Finite v"
  shows "length (fgrad_y_float64 th tf y) = length y \<and>
         fless (Finite 0) (fgrad_y_float64 th tf y ! n)"
proof -
  have "fle (Finite 0) (jacobian_term_float64 th (Finite v) p)" if "p \<in> set (psi tf)" for p
  proof -
    obtain a b c where p: "p = (a, b, c)" by (cases p)
    have "0 < a" "0 < b" "a * b < overflow_threshold"
      using assms(2,4) that by (auto simp: valid_def list_all_iff p)
    then show ?thesis
      unfolding p by (rule jacobian_term_float64_nonneg [OF assms(1)])
  qed
  then have "fle (Finite 0) (fsum (map (jacobian_term_float64 th (Finite v)) (psi tf)))"
    by (intro fsum_nonneg) simp
  then have "fless (Finite 0)
      (fadd (Finite (d tf)) (fsum (map (jacobian_term_float64 th (Finite v)) (psi tf))))"
    using assms(2,3) by (intro fadd_float64_pos) (simp_all add: valid_def)
  then show ?thesis
    using assms(5,6) by (simp add: fgrad_y_float64_def)
qed

theorem fgrad_y_float64_positive_witness:
  "(\<forall>x. \<bar>tanh_rn x\<bar> \<le> 1) \<and> valid (one_term 1 1 0 1) \<and> is_float64 1 \<and>
   fless (Finite 0) (fgrad_y_float64 tanh_rn (one_term 1 1 0 1) [Finite 0] ! 0)"
  using fgrad_y_float64_positive [of tanh_rn "one_term 1 1 0 1" 0 "[Finite 0]" 0]
    tanh_rn_bounded overflow_threshold_pos
  by (simp add: valid_def one_term_def)

subsection \<open>Construction\<close>

lemma init_no_term: "n \<le> 0 \<Longrightarrow> init n hint = Inl ValueError"
  by (simp add: init_def)

text \<open>
  Claim C9, as stated: a freshly constructed instance has \<open>a = 1\<close>, \<open>b = 1\<close>, \<open>c = 0\<close> in
  every term and \<open>d = 1\<close>. The constructor fills \<open>psi\<close> with \<open>np.ones\<close>, so \<open>c\<close> is
  \<open>1\<close>: the claim fails for one term already.
\<close>

theorem init_c_zero_counterexample:
  "\<exists>tf. init 1 None = Inr tf \<and>
        \<not> (list_all (\<lambda>(a, b, c). a = 1 \<and> b = 1 \<and> c = 0) (psi tf) \<and> d tf = 1)"
  by (simp add: init_def)

text \<open>
  Claim C9, amended: for every number of terms \<open>n \<ge> 1\<close>, the constructor returns an
  instance with \<open>n\<close> terms, each initialised to \<open>a = 1\<close>, \<open>b = 1\<close>, \<open>c = 1\<close>, and with
  \<open>d = 1\<close>. (For \<open>n \<le> 0\<close> it raises, see \<open>init_no_term\<close>.)
\<close>

theorem init_all_ones:
  assumes "1 \<le> n"
  shows "\<exists>tf. init n hint = Inr tf \<and> length (psi tf) = nat n \<and>
           list_all (\<lambda>(a, b, c). a = 1 \<and> b = 1 \<and> c = 1) (psi tf) \<and> d tf = 1"
  using assms by (simp add: init_def list_all_iff)

theorem init_all_ones_witness:
  "\<exists>tf. init 3 None = Inr tf \<and> length (psi tf) = 3 \<and>
        list_all (\<lambda>(a, b, c). a = 1 \<and> b = 1 \<and> c = 1) (psi tf) \<and> d tf = 1"
  using init_all_ones [of 3 None] by simp

subsection \<open>The Newton-Raphson loop\<close>

lemma newton_step_valid:
  assumes "valid tf" and "length y = length z"
  shows "newton_step tf z y =
           Inr (map2 (\<lambda>v w. v - (f1 tf v - w) / fgrad1 tf v) y z,
                map2 (\<lambda>v w. (f1 tf v - w) / fgrad1 tf v) y z)"
proof -
  have nz: "0 \<notin> set (fgrad_y tf y)"
  proof
    assume "0 \<in> set (fgrad_y tf y)"
    then obtain v where "fgrad1 tf v = 0"
      by (auto simp: fgrad_y_map)
    then show False
      using fgrad1_bounds(3) [OF assms(1), of v] by simp
  qed
  have d: "broadcast2 (-) (f tf y) z = Inr (map2 (-) (map (f1 tf) y) z)"
    using assms(2) by (simp add: broadcast2_def f_map)
  have q: "divide_arrays (map2 (-) (map (f1 tf) y) z) (fgrad_y tf y) =
           Inr (map2 (\<lambda>v w. (f1 tf v - w) / fgrad1 tf v) y z)"
    using nz assms(2)
    by (simp add: divide_arrays_def broadcast2_def fgrad_y_map list_eq_iff_nth_eq)
  have s: "inplace2 (-) y (map2 (\<lambda>v w. (f1 tf v - w) / fgrad1 tf v) y z) =
           Inr (map2 (\<lambda>v w. v - (f1 tf v - w) / fgrad1 tf v) y z)"
    using assms(2) by (simp add: inplace2_def list_eq_iff_nth_eq)
  show ?thesis
    by (simp add: newton_step_def d q s)
qed

lemma newton_loop_returns:
  assumes "valid tf" and "length y = length z"
  shows "\<exists>r. newton_loop tf z m y u it = Inr r"
  using assms
proof (induction tf z m y u it rule: newton_loop.induct)
  case (1 tf z m y u it)
  show ?case
  proof (cases "it = 0 \<or> (exceeds u \<and> int it < m)")
    case True
    let ?y = "map2 (\<lambda>v w. v - (f1 tf v - w) / fgrad1 tf v) y z"
    let ?u = "map2 (\<lambda>v w. (f1 tf v - w) / fgrad1 tf v) y z"
    have st: "newton_step tf z y = Inr (?y, ?u)"
      using 1 by (simp add: newton_step_valid)
    have len: "length ?y = length z"
      using "1.prems" by simp
    have "\<exists>r. newton_loop tf z m ?y (Update ?u) (it + 1) = Inr r"
      by (rule "1.IH" [OF True st refl "1.prems"(1) len])
    then show ?thesis
      using True st by (subst newton_loop.simps) simp
  next
    case False
    then show ?thesis
      by (subst newton_loop.simps) auto
  qed
qed

lemma newton_loop_char:
  assumes "newton_loop tf z m y u it = Inr (y', u', k)"
    and "newton_iter tf z y0 it = Inr (y, u)"
  shows "it \<le> k \<and> (it = 0 \<longrightarrow> 1 \<le> k) \<and> newton_iter tf z y0 k = Inr (y', u')
       \<and> \<not> (exceeds u' \<and> int k < m)
       \<and> (it < k \<longrightarrow> it = 0 \<or> (exceeds u \<and> int it < m))
       \<and> (\<forall>j. it < j \<and> j < k \<longrightarrow> (\<exists>yj uj. newton_iter tf z y0 j = Inr (yj, uj) \<and> exceeds uj \<and> int j < m))"
  using assms
proof (induction tf z m y u it rule: newton_loop.induct)
  case (1 tf z m y u it)
  show ?case
  proof (cases "it = 0 \<or> (exceeds u \<and> int it < m)")
    case True
    then obtain y1 u1 where st: "newton_step tf z y = Inr (y1, u1)"
      and rec: "newton_loop tf z m y1 (Update u1) (it + 1) = Inr (y', u', k)"
      using "1.prems"(1) by (subst (asm) newton_loop.simps) (auto split: sum.splits)
    have it1: "newton_iter tf z y0 (it + 1) = Inr (y1, Update u1)"
      using "1.prems"(2) st by simp
    note IH = "1.IH" [OF True st refl rec it1]
    show ?thesis
    proof (intro conjI impI allI)
      fix j assume j: "it < j \<and> j < k"
      show "\<exists>yj uj. newton_iter tf z y0 j = Inr (yj, uj) \<and> exceeds uj \<and> int j < m"
      proof (cases "j = it + 1")
        case True
        then show ?thesis using IH j it1 by auto
      next
        case False
        then show ?thesis using IH j by auto
      qed
    qed (use IH True in auto)
  next
    case False
    then have "y' = y" "u' = u" "k = it"
      using "1.prems"(1) by (subst (asm) newton_loop.simps, simp)+
    then show ?thesis
      using False "1.prems"(2) by auto
  qed
qed

lemma newton_iter_Update:
  "newton_iter tf z y0 k = Inr (y, u) \<Longrightarrow> 1 \<le> k \<Longrightarrow> \<exists>w. u = Update w"
  by (cases k) (auto split: sum.splits prod.splits)

lemma f_inv_char:
  assumes "valid tf" and "start_guess tf z y_arg = Inr y0" and "length y0 = length z"
  shows "\<exists>r u. f_inv tf z m y_arg = Inr r \<and> last_update r = Update u \<and> 1 \<le> iterations r
           \<and> newton_iter tf z y0 (iterations r) = Inr (result_y r, Update u)
           \<and> (abs_sum u \<le> 1 / 10 ^ 10 \<or> m \<le> int (iterations r))
           \<and> (\<forall>j. 1 \<le> j \<and> j < iterations r \<longrightarrow>
                 (\<exists>yj uj. newton_iter tf z y0 j = Inr (yj, Update uj) \<and> abs_sum uj > 1 / 10 ^ 10
                    \<and> int j < m))
           \<and> printed_lines r = (if int (iterations r) = m
                                then [Warning_line, Sum_line (Some (sum_list u))] else [])"
proof -
  obtain y' u' k where loop: "newton_loop tf z m y0 Infinity 0 = Inr (y', u', k)"
    using newton_loop_returns [OF assms(1,3), of m Infinity 0] by (metis prod_cases3)
  have it0: "newton_iter tf z y0 0 = Inr (y0, Infinity)"
    by simp
  note ch = newton_loop_char [OF loop it0]
  have k: "1 \<le> k" using ch by simp
  have itk: "newton_iter tf z y0 k = Inr (y', u')"
    using ch by simp
  obtain u where u: "u' = Update u"
    using newton_iter_Update [OF itk k] ..
  have early: "\<exists>yj uj. newton_iter tf z y0 j = Inr (yj, Update uj) \<and> abs_sum uj > 1 / 10 ^ 10 \<and> int j < m"
    if "1 \<le> j \<and> j < k" for j
  proof -
    have "0 < j \<and> j < k" using that by simp
    then obtain yj uj where j: "newton_iter tf z y0 j = Inr (yj, uj)" "exceeds uj" "int j < m"
      using ch by blast
    have "1 \<le> j" using that by simp
    from newton_iter_Update [OF j(1) this] obtain w where "uj = Update w" ..
    then show ?thesis using j by auto
  qed
  have iter: "newton_iter tf z y0 k = Inr (y', Update u)"
    using ch u by simp
  have stop: "abs_sum u \<le> 1 / 10 ^ 10 \<or> m \<le> int k"
    using ch u by (auto simp: not_less)
  have fi: "f_inv tf z m y_arg = Inr \<lparr> result_y = y', iterations = k, last_update = Update u,
              printed_lines = (if int k = m then [Warning_line, Sum_line (Some (sum_list u))] else []) \<rparr>"
    by (simp add: f_inv_def assms(2) loop u)
  show ?thesis
    unfolding fi using k iter stop early by simp
qed

lemma newton_loop_first:
  "newton_step tf z y = Inr (y', u) \<Longrightarrow>
   newton_loop tf z m y Infinity 0 = newton_loop tf z m y' (Update u) 1"
  by (subst newton_loop.simps) simp

lemma newton_loop_continue:
  "exceeds u \<Longrightarrow> int it < m \<Longrightarrow> newton_step tf z y = Inr (y', u') \<Longrightarrow>
   newton_loop tf z m y u it = newton_loop tf z m y' (Update u') (it + 1)"
  by (subst newton_loop.simps) simp

lemma newton_loop_stop:
  "it \<noteq> 0 \<Longrightarrow> \<not> (exceeds u \<and> int it < m) \<Longrightarrow> newton_loop tf z m y u it = Inr (y, u, it)"
  by (subst newton_loop.simps) auto

subsection \<open>Termination and stopping of the loop\<close>

text \<open>
  Claim C4, as stated: the loop stops at the first iteration count \<open>k \<ge> 1\<close> below
  \<open>max_iterations\<close> at which the sum of absolute updates has dropped below \<open>1e-10\<close>. The
  loop test is \<open>np.abs(update).sum() > 1e-10\<close>, so the loop also stops when the sum equals
  \<open>1e-10\<close>: with \<open>a = b = 1\<close>, \<open>c = -2e-10\<close>, \<open>d = 1\<close>, \<open>z = 0\<close> and the starting array
  \<open>y = 2e-10\<close>, the first update is \<open>(2e-10 + tanh 0) / 2\<close>, exactly \<open>1e-10\<close>, and the loop
  stops after one iteration of the hundred allowed.
\<close>

theorem f_inv_stops_below_tolerance_counterexample:
  "\<exists>r u. f_inv (one_term 1 1 (- (2 / 10 ^ 10)) 1) [0] 100 (Some [2 / 10 ^ 10]) = Inr r \<and>
         iterations r = 1 \<and> last_update r = Update u \<and> abs_sum u = 1 / 10 ^ 10 \<and>
         \<not> abs_sum u < 1 / 10 ^ 10"
proof -
  define tf where "tf = one_term 1 1 (- (2 / 10 ^ 10)) 1"
  define y0 :: array where "y0 = [2 / 10 ^ 10]"
  have v: "valid tf" by (simp add: tf_def valid_def one_term_def)
  have st: "newton_step tf [0] y0 = Inr ([1 / 10 ^ 10], [1 / 10 ^ 10])"
    by (subst newton_step_valid [OF v]) (simp_all add: y0_def tf_def f1_def fgrad1_def one_term_def)
  have "newton_loop tf [0] 100 [1 / 10 ^ 10] (Update [1 / 10 ^ 10]) 1 =
        Inr ([1 / 10 ^ 10], Update [1 / 10 ^ 10], 1)"
    by (rule newton_loop_stop) (simp_all add: abs_sum_def)
  then have loop: "newton_loop tf [0] 100 y0 Infinity 0 =
              Inr ([1 / 10 ^ 10], Update [1 / 10 ^ 10], 1)"
    by (simp only: newton_loop_first [OF st])
  have sg: "start_guess tf [0] (Some y0) = Inr y0"
    by (simp add: start_guess_def)
  have "\<exists>r u. f_inv tf [0] 100 (Some y0) = Inr r \<and>
         iterations r = 1 \<and> last_update r = Update u \<and> abs_sum u = 1 / 10 ^ 10 \<and>
         \<not> abs_sum u < 1 / 10 ^ 10"
    by (simp add: f_inv_def sg loop abs_sum_def)
  then show ?thesis
    by (simp only: tf_def y0_def)
qed

text \<open>
  Claim C4, amended: for valid parameters, every \<open>z\<close>, every starting array of the shape
  of \<open>z\<close> and every \<open>max_iterations \<ge> 1\<close>, \<open>f_inv\<close> returns after a number \<open>k\<close> of
  iterations with \<open>1 \<le> k \<le> max_iterations\<close>; \<open>k\<close> is the first iteration count at which
  the sum of absolute updates is at most \<open>1e-10\<close> (no longer exceeds it), or
  \<open>max_iterations\<close> if that comes first; the value returned is the \<open>k\<close>-th iterate.
\<close>

theorem f_inv_loop_stops:
  assumes "valid tf" and "1 \<le> max_iterations"
    and "start_guess tf z y_arg = Inr y0" and "length y0 = length z"
  shows "\<exists>r u. f_inv tf z max_iterations y_arg = Inr r \<and> last_update r = Update u
           \<and> 1 \<le> iterations r \<and> int (iterations r) \<le> max_iterations
           \<and> newton_iter tf z y0 (iterations r) = Inr (result_y r, Update u)
           \<and> (abs_sum u \<le> 1 / 10 ^ 10 \<or> int (iterations r) = max_iterations)
           \<and> (\<forall>j. 1 \<le> j \<and> j < iterations r \<longrightarrow>
                 (\<exists>yj uj. newton_iter tf z y0 j = Inr (yj, Update uj) \<and> abs_sum uj > 1 / 10 ^ 10))"
proof -
  obtain r u where r: "f_inv tf z max_iterations y_arg = Inr r" "last_update r = Update u"
      "1 \<le> iterations r" "newton_iter tf z y0 (iterations r) = Inr (result_y r, Update u)"
      "abs_sum u \<le> 1 / 10 ^ 10 \<or> max_iterations \<le> int (iterations r)"
    and early: "\<forall>j. 1 \<le> j \<and> j < iterations r \<longrightarrow>
                 (\<exists>yj uj. newton_iter tf z y0 j = Inr (yj, Update uj) \<and> abs_sum uj > 1 / 10 ^ 10
                    \<and> int j < max_iterations)"
    using f_inv_char [OF assms(1,3,4), of max_iterations] by blast
  have le: "int (iterations r) \<le> max_iterations"
  proof (cases "iterations r = 1")
    case True
    then show ?thesis using assms(2) by simp
  next
    case False
    then have "1 \<le> iterations r - 1 \<and> iterations r - 1 < iterations r"
      using r(3) by simp
    then have "int (iterations r - 1) < max_iterations"
      using early by blast
    then show ?thesis by simp
  qed
  have "abs_sum u \<le> 1 / 10 ^ 10 \<or> int (iterations r) = max_iterations"
    using r(5) le by auto
  then show ?thesis
    using r le early by blast
qed

theorem f_inv_loop_stops_witness:
  "valid (one_term 1 1 (- 1) 1) \<and> (1::int) \<le> 100 \<and>
   start_guess (one_term 1 1 (- 1) 1) [1] None = Inr [1] \<and> length [1::real] = length [1::real] \<and>
   (\<exists>r u. f_inv (one_term 1 1 (- 1) 1) [1] 100 None = Inr r \<and> last_update r = Update u
           \<and> 1 \<le> iterations r \<and> int (iterations r) \<le> 100
           \<and> newton_iter (one_term 1 1 (- 1) 1) [1] [1] (iterations r) = Inr (result_y r, Update u)
           \<and> (abs_sum u \<le> 1 / 10 ^ 10 \<or> int (iterations r) = 100)
           \<and> (\<forall>j. 1 \<le> j \<and> j < iterations r \<longrightarrow>
                 (\<exists>yj uj. newton_iter (one_term 1 1 (- 1) 1) [1] [1] j = Inr (yj, Update uj)
                    \<and> abs_sum uj > 1 / 10 ^ 10)))"
proof -
  have v: "valid (one_term 1 1 (- 1) 1)"
    by (simp add: valid_def one_term_def)
  have sg: "start_guess (one_term 1 1 (- 1) 1) [1] None = Inr [1]"
    by (simp add: start_guess_def initial_guess_def sign_guess_def one_term_def)
  show ?thesis
    using v sg f_inv_loop_stops [OF v _ sg, of 100] by simp
qed

subsection \<open>The convergence warning\<close>

text \<open>
  Claim C5, as stated: the diagnostic is emitted exactly when the iteration limit is reached
  without the tolerance having been satisfied, and it carries the iteration count and the
  final aggregate update magnitude. The code prints \<open>if it == max_iterations\<close>, whatever
  the last update was: with \<open>a = b = 1\<close>, \<open>c = -1\<close>, \<open>d = 1\<close>, \<open>z = 1\<close> and
  \<open>max_iterations = 1\<close> the only update is \<open>0\<close>, the tolerance is met, and the warning is
  printed all the same.
\<close>

theorem f_inv_warning_counterexample:
  "\<exists>r u. f_inv (one_term 1 1 (- 1) 1) [1] 1 None = Inr r \<and> last_update r = Update u \<and>
         abs_sum u < 1 / 10 ^ 10 \<and> printed_lines r = [Warning_line, Sum_line (Some 0)]"
proof -
  define tf where "tf = one_term 1 1 (- 1) 1"
  have v: "valid tf" by (simp add: tf_def valid_def one_term_def)
  have st: "newton_step tf [1] [1] = Inr ([1], [0])"
    by (subst newton_step_valid [OF v]) (simp_all add: tf_def f1_def fgrad1_def one_term_def)
  have "newton_loop tf [1] 1 [1] (Update [0]) 1 = Inr ([1], Update [0], 1)"
    by (rule newton_loop_stop) (simp_all add: abs_sum_def)
  then have loop: "newton_loop tf [1] 1 [1] Infinity 0 = Inr ([1], Update [0], 1)"
    by (simp only: newton_loop_first [OF st])
  have sg: "start_guess tf [1] None = Inr [1]"
    by (simp add: tf_def start_guess_def initial_guess_def sign_guess_def one_term_def)
  have "\<exists>r u. f_inv tf [1] 1 None = Inr r \<and> last_update r = Update u \<and>
         abs_sum u < 1 / 10 ^ 10 \<and> printed_lines r = [Warning_line, Sum_line (Some 0)]"
    by (simp add: f_inv_def sg loop abs_sum_def)
  then show ?thesis
    by (simp only: tf_def)
qed

text \<open>
  Claim C5, amended: for valid parameters and a starting array of the shape of \<open>z\<close>,
  \<open>f_inv\<close> raises nothing and returns the last computed \<open>y\<close>; it prints its warning
  exactly when the number of iterations executed equals \<open>max_iterations\<close>, whether or not
  the tolerance was met on that last iteration; the warning is the fixed line followed by
  the plain sum \<open>np.sum(update)\<close> of the last updates, and holds no iteration count.
\<close>

theorem f_inv_warning:
  assumes "valid tf" and "start_guess tf z y_arg = Inr y0" and "length y0 = length z"
  shows "\<exists>r u. f_inv tf z max_iterations y_arg = Inr r \<and> last_update r = Update u
           \<and> newton_iter tf z y0 (iterations r) = Inr (result_y r, Update u)
           \<and> printed_lines r = (if int (iterations r) = max_iterations
                                then [Warning_line, Sum_line (Some (sum_list u))] else [])"
  using f_inv_char [OF assms, of max_iterations] by blast

theorem f_inv_warning_witness:
  "valid (one_term 1 1 (- 1) 1) \<and>
   start_guess (one_term 1 1 (- 1) 1) [1] None = Inr [1] \<and> length [1::real] = length [1::real] \<and>
   (\<exists>r u. f_inv (one_term 1 1 (- 1) 1) [1] 1 None = Inr r \<and> last_update r = Update u
           \<and> newton_iter (one_term 1 1 (- 1) 1) [1] [1] (iterations r) = Inr (result_y r, Update u)
           \<and> printed_lines r = (if int (iterations r) = 1
                                then [Warning_line, Sum_line (Some (sum_list u))] else []))"
proof -
  have v: "valid (one_term 1 1 (- 1) 1)"
    by (simp add: valid_def one_term_def)
  have sg: "start_guess (one_term 1 1 (- 1) 1) [1] None = Inr [1]"
    by (simp add: start_guess_def initial_guess_def sign_guess_def one_term_def)
  show ?thesis
    using v sg f_inv_warning [OF v sg, of 1] by simp
qed

subsection \<open>Round trip through \<open>f\<close> and \<open>f_inv\<close>\<close>












subsection \<open>What the loops of \<open>fgrad_y_psi\<close> compute\<close>

lemma upd4_numeral:
  "upd4 1 v (p, q, r, s) = (p, v, r, s)"
  "upd4 2 v (p, q, r, s) = (p, q, v, s)"
  "upd4 3 v (p, q, r, s) = (p, q, r, v)"
  by (simp_all add: numeral_2_eq_2 numeral_3_eq_3)

lemma comp4_numeral:
  "comp4 1 (p, q, r, s) = q"
  "comp4 2 (p, q, r, s) = r"
  "comp4 3 (p, q, r, s) = s"
  by (simp_all add: numeral_2_eq_2 numeral_3_eq_3)

lemma set_column_closed:
  assumes "length G = N" and "length col = N"
  shows "set_column G i k col = map (\<lambda>n. (G ! n)[i := upd4 k (col ! n) (G ! n ! i)]) [0..<N]"
  using assms by (simp add: set_column_def list_eq_iff_nth_eq)

lemma table_0: "table e N T 0 = zeros N T"
  by (simp add: table_def zeros_def list_eq_iff_nth_eq)

lemma three_columns_table:
  assumes "j < T"
  shows "set_column (set_column (set_column (table (\<lambda>i n. (e0 i n, e1 i n, e2 i n, 0)) N T j)
            j 0 (map (e0 j) [0..<N])) j 1 (map (e1 j) [0..<N])) j 2 (map (e2 j) [0..<N]) =
         table (\<lambda>i n. (e0 i n, e1 i n, e2 i n, 0)) N T (Suc j)"
proof -
  have l: "length (table e N T j) = N" for e by (simp add: table_def)
  have l1: "length (set_column G i k (map g [0..<N])) = N" if "length G = N" for G i k g
    using that by (simp add: set_column_def)
  show ?thesis
    using assms
    by (simp add: set_column_closed [where N = N] l l1)
       (auto simp: table_def list_eq_iff_nth_eq nth_list_update less_Suc_eq upd4_numeral)
qed

lemma fold_table:
  assumes body: "\<And>G i. i < T \<Longrightarrow> body i G =
      set_column (set_column (set_column G i 0 (map (e0 i) [0..<N])) i 1 (map (e1 i) [0..<N]))
        i 2 (map (e2 i) [0..<N])"
    and "j \<le> T"
  shows "fold body [0..<j] (zeros N T) = table (\<lambda>i n. (e0 i n, e1 i n, e2 i n, 0)) N T j"
  using assms(2)
proof (induction j)
  case 0
  then show ?case by (simp add: table_0)
next
  case (Suc j)
  then have j: "j < T" by simp
  have "fold body [0..<Suc j] (zeros N T) = body j (fold body [0..<j] (zeros N T))"
    by simp
  also have "\<dots> = body j (table (\<lambda>i n. (e0 i n, e1 i n, e2 i n, 0)) N T j)"
    using Suc by simp
  also have "\<dots> = table (\<lambda>i n. (e0 i n, e1 i n, e2 i n, 0)) N T (Suc j)"
    unfolding body [OF j] by (rule three_columns_table [OF j])
  finally show ?case .
qed

lemma table_cong:
  assumes "\<And>i n. i < T \<Longrightarrow> n < N \<Longrightarrow> e i n = e' i n"
  shows "table e N T j = table e' N T j"
  using assms by (simp add: table_def)

lemma table_nth:
  "n < N \<Longrightarrow> i < T \<Longrightarrow> table e N T T ! n ! i = e i n"
  by (simp add: table_def)

lemma table_length: "length (table e N T j) = N" "n < N \<Longrightarrow> length (table e N T j ! n) = T"
  by (simp_all add: table_def)

lemma set_column_nth:
  assumes "length G = N" and "length col = N" and "n < N"
  shows "set_column G i k col ! n = (G ! n)[i := upd4 k (col ! n) (G ! n ! i)]"
  using assms by (simp add: set_column_def)

lemma set_column_length:
  "length G = N \<Longrightarrow> length col = N \<Longrightarrow> length (set_column G i k col) = N"
  by (simp add: set_column_def)

text \<open>The entries of the precomputed arrays.\<close>

lemma precalc_nth:
  assumes "fgrad_y_precalc tf y = (w, s, r, dd)" and "i < length (psi tf)"
    and "psi tf ! i = (a, b, c)"
  shows "s ! i = map (\<lambda>v. b * (v + c)) y"
    and "r ! i = map (\<lambda>v. tanh (b * (v + c))) y"
    and "dd ! i = map (\<lambda>v. 1 - (tanh (b * (v + c))) ^ 2) y"
  using assms by (auto simp: fgrad_y_precalc_def Let_def)

lemma gradients_loop:
  assumes pre: "fgrad_y_precalc tf y = (w, s, r, dd)"
  shows "fold (\<lambda>i G. gradients_body tf s r dd (length y) G i) [0..<length (psi tf)]
           (zeros (length y) (length (psi tf))) =
         table (jac_entry tf y) (length y) (length (psi tf)) (length (psi tf))"
proof -
  let ?N = "length y" and ?T = "length (psi tf)"
  let ?e0 = "\<lambda>i n. case psi tf ! i of (a, b, c) \<Rightarrow> b * (1 / cosh (s ! i ! n)) ^ 2"
  let ?e1 = "\<lambda>i n. case psi tf ! i of (a, b, c) \<Rightarrow>
               a * (dd ! i ! n - 2 * (s ! i ! n) * (r ! i ! n) * (1 / cosh (s ! i ! n)) ^ 2)"
  let ?e2 = "\<lambda>i n. case psi tf ! i of (a, b, c) \<Rightarrow>
               - 2 * a * b ^ 2 * (r ! i ! n) * (1 / cosh (s ! i ! n)) ^ 2"
  have body: "gradients_body tf s r dd ?N G i =
      set_column (set_column (set_column G i 0 (map (?e0 i) [0..<?N])) i 1 (map (?e1 i) [0..<?N]))
        i 2 (map (?e2 i) [0..<?N])" for G i
    by (simp add: gradients_body_def split: prod.splits)
  have "fold (\<lambda>i G. gradients_body tf s r dd ?N G i) [0..<?T] (zeros ?N ?T) =
        table (\<lambda>i n. (?e0 i n, ?e1 i n, ?e2 i n, 0)) ?N ?T ?T"
    by (rule fold_table [OF body]) simp
  also have "\<dots> = table (jac_entry tf y) ?N ?T ?T"
  proof (rule table_cong)
    fix i n assume i: "i < ?T" and n: "n < ?N"
    obtain a b c where abc: "psi tf ! i = (a, b, c)" by (cases "psi tf ! i")
    show "(?e0 i n, ?e1 i n, ?e2 i n, 0) = jac_entry tf y i n"
      using n by (simp add: jac_entry_def abc precalc_nth [OF pre i abc])
  qed
  finally show ?thesis .
qed

lemma covar_loop:
  assumes pre: "fgrad_y_precalc tf y = (w, s, r, dd)"
  shows "fold (\<lambda>i G. covar_body tf y s r (length y) G i) [0..<length (psi tf)]
           (zeros (length y) (length (psi tf))) =
         table (chain_entry tf y) (length y) (length (psi tf)) (length (psi tf))"
proof -
  let ?N = "length y" and ?T = "length (psi tf)"
  let ?e0 = "\<lambda>i n. r ! i ! n"
  let ?e1 = "\<lambda>i n. case psi tf ! i of (a, b, c) \<Rightarrow>
               a * (y ! n + c) * (1 / cosh (s ! i ! n)) ^ 2"
  let ?e2 = "\<lambda>i n. case psi tf ! i of (a, b, c) \<Rightarrow> a * b * (1 / cosh (s ! i ! n)) ^ 2"
  have body: "covar_body tf y s r ?N G i =
      set_column (set_column (set_column G i 0 (map (?e0 i) [0..<?N])) i 1 (map (?e1 i) [0..<?N]))
        i 2 (map (?e2 i) [0..<?N])" if i: "i < ?T" for G i
  proof -
    obtain a b c where abc: "psi tf ! i = (a, b, c)" by (cases "psi tf ! i")
    have len: "length (r ! i) = ?N"
      by (simp add: precalc_nth(2) [OF pre i abc])
    have meq: "map (?e0 i) [0..<?N] = r ! i"
      unfolding len [symmetric] by (rule map_nth)
    show ?thesis
      by (simp only: covar_body_def abc prod.case meq)
  qed
  have "fold (\<lambda>i G. covar_body tf y s r ?N G i) [0..<?T] (zeros ?N ?T) =
        table (\<lambda>i n. (?e0 i n, ?e1 i n, ?e2 i n, 0)) ?N ?T ?T"
    by (rule fold_table [OF body]) simp_all
  also have "\<dots> = table (chain_entry tf y) ?N ?T ?T"
  proof (rule table_cong)
    fix i n assume i: "i < ?T" and n: "n < ?N"
    obtain a b c where abc: "psi tf ! i = (a, b, c)" by (cases "psi tf ! i")
    show "(?e0 i n, ?e1 i n, ?e2 i n, 0) = chain_entry tf y i n"
      using n by (simp add: chain_entry_def abc precalc_nth [OF pre i abc])
  qed
  finally show ?thesis .
qed

lemma fgrad_y_psi_closed:
  assumes "psi tf \<noteq> []"
  shows "fgrad_y_psi tf y flag =
     Inr (set_column (table (jac_entry tf y) (length y) (length (psi tf)) (length (psi tf)))
            0 3 (replicate (length y) 1),
          if flag
          then Some (set_column (table (chain_entry tf y) (length y) (length (psi tf)) (length (psi tf)))
                  0 3 y)
          else None)"
proof -
  obtain w s r dd where pre: "fgrad_y_precalc tf y = (w, s, r, dd)"
    by (cases "fgrad_y_precalc tf y")
  show ?thesis
    using assms
    by (simp add: fgrad_y_psi_def pre Let_def gradients_loop [OF pre] covar_loop [OF pre])
qed

lemma set_column_d_nth:
  assumes "n < N" and "i < T" and "length col = N"
  shows "set_column (table e N T T) 0 3 col ! n ! i =
           (if i = 0 then upd4 3 (col ! n) (e 0 n) else e i n)"
  using assms
  by (simp add: set_column_nth [where N = N] table_length table_nth nth_list_update)

lemma set_column_d_length:
  assumes "length col = N"
  shows "length (set_column (table e N T T) 0 3 col) = N"
    and "n < N \<Longrightarrow> length (set_column (table e N T T) 0 3 col ! n) = T"
  using assms
  by (simp_all add: set_column_length [where N = N] set_column_nth [where N = N] table_length)

lemma fgrad_y_psi_no_terms: "psi tf = [] \<Longrightarrow> fgrad_y_psi tf y flag = Inl IndexError"
  by (simp add: fgrad_y_psi_def Let_def split: prod.splits)

text \<open>
  Claim C6. For every input \<open>y\<close> and every parameter set, the tensor that
  \<open>TanhFunction.fgrad_y_psi\<close> returns has, for observation \<open>n\<close> and term \<open>i\<close> with
  \<open>S = b\<^sub>i (y\<^sub>n + c\<^sub>i)\<close>, \<open>R = tanh S\<close>, \<open>D = 1 - R\<^sup>2\<close> and \<open>sech S = 1 / cosh S\<close>: the
  a-column \<open>b\<^sub>i sech\<^sup>2 S\<close>, the b-column \<open>a\<^sub>i (D - 2 S R sech\<^sup>2 S)\<close>, the c-column
  \<open>-2 a\<^sub>i b\<^sub>i\<^sup>2 R sech\<^sup>2 S\<close>, and the d-column \<open>1\<close> on term \<open>0\<close> and \<open>0\<close> on every other
  term; with \<open>return_covar_chain\<close> the second tensor has a-column \<open>R\<close>, b-column
  \<open>a\<^sub>i (y\<^sub>n + c\<^sub>i) sech\<^sup>2 S\<close>, c-column \<open>a\<^sub>i b\<^sub>i sech\<^sup>2 S\<close>, and d-column \<open>y\<^sub>n\<close> on term \<open>0\<close>
  only. (With a term \<open>i\<close> to speak of, the call returns; with no term at all it raises
  \<open>IndexError\<close>, lemma \<open>fgrad_y_psi_no_terms\<close>.)
\<close>

theorem fgrad_y_psi_entries:
  assumes "n < length y" and "i < length (psi tf)" and "psi tf ! i = (a, b, c)"
    and "S = b * (y ! n + c)" and "R = tanh S" and "D = 1 - R ^ 2"
  shows "\<exists>G C. fgrad_y_psi tf y return_covar_chain = Inr (G, C) \<and>
           length G = length y \<and> length (G ! n) = length (psi tf) \<and>
           G ! n ! i = (b * (1 / cosh S) ^ 2,
                        a * (D - 2 * S * R * (1 / cosh S) ^ 2),
                        - 2 * a * b ^ 2 * R * (1 / cosh S) ^ 2,
                        if i = 0 then 1 else 0) \<and>
           (if return_covar_chain
            then \<exists>C'. C = Some C' \<and> length C' = length y \<and> length (C' ! n) = length (psi tf) \<and>
                   C' ! n ! i = (R,
                                 a * (y ! n + c) * (1 / cosh S) ^ 2,
                                 a * b * (1 / cosh S) ^ 2,
                                 if i = 0 then y ! n else 0)
            else C = None)"
proof -
  have ne: "psi tf \<noteq> []" using assms(2) by auto
  have je: "jac_entry tf y i n =
           (b * (1 / cosh S) ^ 2, a * (D - 2 * S * R * (1 / cosh S) ^ 2),
            - 2 * a * b ^ 2 * R * (1 / cosh S) ^ 2, 0)"
    using assms by (simp add: jac_entry_def)
  have ce: "chain_entry tf y i n =
           (R, a * (y ! n + c) * (1 / cosh S) ^ 2, a * b * (1 / cosh S) ^ 2, 0)"
    using assms by (simp add: chain_entry_def)
  have g: "set_column (table (jac_entry tf y) (length y) (length (psi tf)) (length (psi tf)))
             0 3 (replicate (length y) 1) ! n ! i =
           (b * (1 / cosh S) ^ 2, a * (D - 2 * S * R * (1 / cosh S) ^ 2),
            - 2 * a * b ^ 2 * R * (1 / cosh S) ^ 2, if i = 0 then 1 else 0)"
  proof (cases "i = 0")
    case True
    then show ?thesis
      using assms(1,2) je
      by (simp add: set_column_d_nth [where N = "length y"] upd4_numeral)
  next
    case False
    then show ?thesis
      using assms(1,2) je
      by (simp add: set_column_d_nth [where N = "length y"])
  qed
  have c: "set_column (table (chain_entry tf y) (length y) (length (psi tf)) (length (psi tf)))
             0 3 y ! n ! i =
           (R, a * (y ! n + c) * (1 / cosh S) ^ 2, a * b * (1 / cosh S) ^ 2,
            if i = 0 then y ! n else 0)"
  proof (cases "i = 0")
    case True
    then show ?thesis
      using assms(1,2) ce
      by (simp add: set_column_d_nth [where N = "length y"] upd4_numeral)
  next
    case False
    then show ?thesis
      using assms(1,2) ce
      by (simp add: set_column_d_nth [where N = "length y"])
  qed
  show ?thesis
    unfolding fgrad_y_psi_closed [OF ne]
    using assms(1) g c by (simp add: set_column_d_length)
qed

theorem fgrad_y_psi_entries_witness:
  "(0::nat) < length [0::real] \<and> (0::nat) < length (psi (one_term 1 1 0 1)) \<and>
   psi (one_term 1 1 0 1) ! 0 = (1, 1, 0) \<and>
   (\<exists>G C. fgrad_y_psi (one_term 1 1 0 1) [0] True = Inr (G, C) \<and>
      G ! 0 ! 0 = (1, 1, 0, 1) \<and> (\<exists>C'. C = Some C' \<and> C' ! 0 ! 0 = (0, 0, 1, 0)))"
  using fgrad_y_psi_entries [where n = 0 and y = "[0]" and tf = "one_term 1 1 0 1" and i = 0
      and a = 1 and b = 1 and c = 0 and S = 0 and R = 0 and D = 1 and return_covar_chain = True]
  by (simp add: one_term_def) blast

subsection \<open>The gradient written by \<open>update_grads\<close>\<close>

lemma comp4_add4: "comp4 k (add4 x y) = comp4 k x + comp4 k y"
  by (cases "(k, x)" rule: comp4.cases; cases y) (simp_all add: add4_def)

lemma comp4_scale4: "comp4 k (scale4 w x) = w * comp4 k x"
  by (cases "(k, x)" rule: comp4.cases) (simp_all add: scale4_def)

lemma comp4_zero: "comp4 k (0, 0, 0, 0) = 0"
  by (cases "(k, (0::real, 0::real, 0::real, 0::real))" rule: comp4.cases) simp_all

lemma sum_observations_length:
  "\<forall>row \<in> set W. length row = T \<Longrightarrow> length (sum_observations T W) = T"
  by (induction W) (simp_all add: sum_observations_def)

lemma sum_observations_comp:
  assumes "\<forall>row \<in> set W. length row = T" and "i < T"
  shows "comp4 k (sum_observations T W ! i) = (\<Sum>n<length W. comp4 k (W ! n ! i))"
  using assms(1)
proof (induction W)
  case Nil
  then show ?case
    using assms(2) by (simp add: sum_observations_def comp4_zero)
next
  case (Cons row W)
  have l: "length (sum_observations T W) = T"
    using Cons.prems by (simp add: sum_observations_length)
  have lr: "length row = T"
    using Cons.prems by simp
  have IH: "comp4 k (sum_observations T W ! i) = (\<Sum>n<length W. comp4 k (W ! n ! i))"
    using Cons by simp
  have "sum_observations T (row # W) = map2 add4 row (sum_observations T W)"
    by (simp add: sum_observations_def)
  then have "comp4 k (sum_observations T (row # W) ! i) =
             comp4 k (row ! i) + comp4 k (sum_observations T W ! i)"
    using l lr assms(2) by (simp add: comp4_add4)
  moreover have "(\<Sum>n<length (row # W). comp4 k ((row # W) ! n ! i)) =
                 comp4 k (row ! i) + (\<Sum>n<length W. comp4 k (W ! n ! i))"
    unfolding length_Cons sum.lessThan_Suc_shift by simp
  ultimately show ?case
    by (simp only: IH)
qed

lemma weight_observations_eq:
  assumes "length w = length G"
  shows "weight_observations w G = Inr (map2 (\<lambda>v row. map (scale4 v) row) w G)"
  using assms by (simp add: weight_observations_def)

lemma weighted_sum_comp:
  assumes "length w = length G" and "\<forall>row \<in> set G. length row = T" and "i < T"
  shows "comp4 k (sum_observations T (map2 (\<lambda>v row. map (scale4 v) row) w G) ! i) =
         (\<Sum>n<length w. w ! n * comp4 k (G ! n ! i))"
proof -
  let ?W = "map2 (\<lambda>v row. map (scale4 v) row) w G"
  have rows: "\<forall>row \<in> set ?W. length row = T"
    using assms(2) by (auto simp: set_zip)
  have "comp4 k (sum_observations T ?W ! i) = (\<Sum>n<length ?W. comp4 k (?W ! n ! i))"
    by (rule sum_observations_comp [OF rows assms(3)])
  also have "\<dots> = (\<Sum>n<length w. w ! n * comp4 k (G ! n ! i))"
    using assms by (intro sum.cong) (auto simp: comp4_scale4)
  finally show ?thesis .
qed

lemma fgrad_y_psi_shape:
  assumes "fgrad_y_psi tf y flag = Inr (G, Cx)"
  shows "psi tf \<noteq> []" and "length G = length y" and "\<forall>row \<in> set G. length row = length (psi tf)"
    and "Cx = Some C \<Longrightarrow> length C = length y \<and> (\<forall>row \<in> set C. length row = length (psi tf))"
proof -
  show ne: "psi tf \<noteq> []"
    using assms fgrad_y_psi_no_terms [of tf y flag] by auto
  have eq: "(G, Cx) =
     (set_column (table (jac_entry tf y) (length y) (length (psi tf)) (length (psi tf)))
            0 3 (replicate (length y) 1),
          if flag
          then Some (set_column (table (chain_entry tf y) (length y) (length (psi tf)) (length (psi tf)))
                  0 3 y)
          else None)"
    using assms unfolding fgrad_y_psi_closed [OF ne] by simp
  show "length G = length y"
    using eq by (simp add: set_column_d_length)
  show "\<forall>row \<in> set G. length row = length (psi tf)"
    using eq by (auto simp: in_set_conv_nth set_column_d_length)
  show "length C = length y \<and> (\<forall>row \<in> set C. length row = length (psi tf))" if "Cx = Some C"
    using eq that by (auto simp: in_set_conv_nth set_column_d_length split: if_splits)
qed

lemma update_grads_closed:
  assumes len: "length Kiy = length Y" and nz: "0 \<notin> set (fgrad_y tf Y)"
    and gp: "fgrad_y_psi tf Y True = Inr (G, Some C)"
  shows "update_grads tf g Y Kiy = Inr (written_gradients tf Y Kiy G C)"
proof -
  let ?T = "length (psi tf)"
  let ?w = "map (\<lambda>v. 1 / v) (fgrad_y tf Y)"
  let ?J = "sum_observations ?T (map2 (\<lambda>v row. map (scale4 v) row) ?w G)"
  let ?Q = "sum_observations ?T (map2 (\<lambda>v row. map (scale4 v) row) Kiy C)"
  let ?W = "map2 (\<lambda>q j. add4 (scale4 (- 1) q) j) ?Q ?J"
  note shape = fgrad_y_psi_shape [OF gp]
  have T0: "0 < ?T" using shape(1) by simp
  have lG: "length G = length Y" and rG: "\<forall>row \<in> set G. length row = ?T"
    using shape(2,3) by simp_all
  have lC: "length C = length Y" and rC: "\<forall>row \<in> set C. length row = ?T"
    using shape(4) [OF refl] by simp_all
  have lw: "length ?w = length G"
    using lG by (simp add: fgrad_y_map)
  have lK: "length Kiy = length C"
    using len lC by simp
  have rec: "reciprocal (fgrad_y tf Y) = Inr ?w"
    using nz by (simp add: reciprocal_def)
  have lJ: "length ?J = ?T"
    using rG by (intro sum_observations_length) (auto simp: set_zip)
  have lQ: "length ?Q = ?T"
    using rC by (intro sum_observations_length) (auto simp: set_zip)
  have J: "comp4 k (?J ! i) = jacobian_grad tf Y G i k" if "i < ?T" for i k
    unfolding weighted_sum_comp [OF lw rG that]
    by (simp add: jacobian_grad_def fgrad_y_map)
  have Q: "comp4 k (?Q ! i) = quadratic_grad Kiy C i k" if "i < ?T" for i k
    unfolding weighted_sum_comp [OF lK rC that]
    by (simp add: quadratic_grad_def)
  have W: "comp4 k (?W ! i) = total_grad tf Y Kiy G C i k" if "i < ?T" for i k
    using that lJ lQ by (simp add: comp4_add4 comp4_scale4 J Q total_grad_def)
  have lW: "length ?W = ?T"
    using lJ lQ by simp
  have triple: "(\<lambda>(p, q, r, s). (p, q, r)) e = (comp4 0 e, comp4 1 e, comp4 2 e)" for e :: quad
    by (cases e) (simp add: comp4_numeral)
  have psi_g: "map (\<lambda>(p, q, r, s). (p, q, r)) ?W =
        map (\<lambda>i. (total_grad tf Y Kiy G C i 0, total_grad tf Y Kiy G C i 1,
                   total_grad tf Y Kiy G C i 2)) [0..<?T]"
  proof (rule nth_equalityI)
    show "length (map (\<lambda>(p, q, r, s). (p, q, r)) ?W) =
          length (map (\<lambda>i. (total_grad tf Y Kiy G C i 0, total_grad tf Y Kiy G C i 1,
                   total_grad tf Y Kiy G C i 2)) [0..<?T])"
      using lW by simp
  next
    fix i assume "i < length (map (\<lambda>(p, q, r, s). (p, q, r)) ?W)"
    then have iW: "i < length ?W" by (simp only: length_map)
    have i: "i < ?T" using iW unfolding lW .
    show "map (\<lambda>(p, q, r, s). (p, q, r)) ?W ! i =
          map (\<lambda>i. (total_grad tf Y Kiy G C i 0, total_grad tf Y Kiy G C i 1,
                   total_grad tf Y Kiy G C i 2)) [0..<?T] ! i"
      unfolding nth_map [OF iW] triple W [OF i] using i by simp
  qed
  have d_g: "comp4 3 (?W ! 0) = total_grad tf Y Kiy G C 0 3"
    by (rule W [OF T0])
  have "update_grads tf g Y Kiy =
        Inr (g\<lparr> psi_gradient := map (\<lambda>(p, q, r, s). (p, q, r)) ?W,
                 d_gradient := comp4 3 (?W ! 0) \<rparr>)"
    by (simp add: update_grads_def Let_def gp rec
        weight_observations_eq [OF lw] weight_observations_eq [OF lK])
  then show ?thesis
    unfolding psi_g d_g by (simp add: written_gradients_def)
qed

text \<open>
  Claim C7. For an observation vector \<open>Y\<close> and a residual vector \<open>Kiy\<close> of the same
  length (and a Jacobian without zero entry, as valid parameters give),
  \<open>TanhFunction.update_grads\<close> writes into the gradient buffers exactly
  \<open>total = jacobian_grad - quadratic_grad\<close>: the \<open>(a, b, c)\<close> slice of each term into the
  buffer of \<open>psi\<close>, the \<open>d\<close> slice of term \<open>0\<close> into the buffer of \<open>d\<close>. The result does
  not depend on what the buffers held before, so a second call with the same inputs
  leaves them as the first did.
\<close>

theorem update_grads_total:
  assumes "length Kiy = length Y" and "0 \<notin> set (fgrad_y tf Y)"
    and "fgrad_y_psi tf Y True = Inr (G, Some C)"
  shows "update_grads tf g Y Kiy = Inr (written_gradients tf Y Kiy G C) \<and>
         update_grads tf (written_gradients tf Y Kiy G C) Y Kiy =
           Inr (written_gradients tf Y Kiy G C)"
  using update_grads_closed [OF assms] by simp

theorem update_grads_total_witness:
  "length [1::real] = length [0::real] \<and> 0 \<notin> set (fgrad_y (one_term 1 1 0 1) [0]) \<and>
   fgrad_y_psi (one_term 1 1 0 1) [0] True = Inr ([[(1, 1, 0, 1)]], Some [[(0, 0, 1, 0)]]) \<and>
   update_grads (one_term 1 1 0 1) \<lparr> psi_gradient = [(7, 7, 7)], d_gradient = 7 \<rparr> [0] [1] =
     Inr \<lparr> psi_gradient = [(1 / 2, 1 / 2, - 1)], d_gradient = 1 / 2 \<rparr> \<and>
   update_grads (one_term 1 1 0 1) \<lparr> psi_gradient = [(1 / 2, 1 / 2, - 1)], d_gradient = 1 / 2 \<rparr> [0] [1] =
     Inr \<lparr> psi_gradient = [(1 / 2, 1 / 2, - 1)], d_gradient = 1 / 2 \<rparr>"
proof -
  let ?tf = "one_term 1 1 0 1"
  have ps: "psi ?tf = [(1, 1, 0)]" by (simp add: one_term_def)
  have ne: "psi ?tf \<noteq> []" by (simp add: ps)
  have len: "length [1::real] = length [0::real]" by simp
  have fg: "fgrad_y ?tf [0] = [2]"
    by (simp add: fgrad_y_map fgrad1_def one_term_def)
  have nz: "0 \<notin> set (fgrad_y ?tf [0])"
    by (simp add: fg)
  have gp: "fgrad_y_psi ?tf [0] True = Inr ([[(1, 1, 0, 1)]], Some [[(0, 0, 1, 0)]])"
    unfolding fgrad_y_psi_closed [OF ne]
    by (simp add: one_term_def table_def set_column_def jac_entry_def chain_entry_def
        upd4_numeral)
  have w: "written_gradients ?tf [0] [1] [[(1, 1, 0, 1)]] [[(0, 0, 1, 0)]] =
           \<lparr> psi_gradient = [(1 / 2, 1 / 2, - 1)], d_gradient = 1 / 2 \<rparr>"
    by (simp add: written_gradients_def total_grad_def jacobian_grad_def quadratic_grad_def fg
        comp4_numeral ps)
  show ?thesis
    using len nz gp
      update_grads_total [OF len nz gp, of "\<lparr> psi_gradient = [(7, 7, 7)], d_gradient = 7 \<rparr>"]
    unfolding w by simp
qed

subsection \<open>What \<open>f_inv\<close> does to the arrays of its caller\<close>

lemma newton_loop_store_refines:
  assumes "z < length h" and "y < length h" and "z \<noteq> y"
    and "newton_loop_store tf z y m h u it = (h', res)"
  shows "length h' = length h \<and> (\<forall>p. p \<noteq> y \<longrightarrow> h' ! p = h ! p) \<and>
         (case res of
            Inl e \<Rightarrow> newton_loop tf (h ! z) m (h ! y) u it = Inl e
          | Inr (u', k) \<Rightarrow> newton_loop tf (h ! z) m (h ! y) u it = Inr (h' ! y, u', k))"
  using assms
proof (induction tf z y m h u it rule: newton_loop_store.induct)
  case (1 tf z y m h u it)
  show ?case
  proof (cases "it = 0 \<or> (exceeds u \<and> int it < m)")
    case True
    show ?thesis
    proof (cases "newton_step tf (h ! z) (h ! y)")
      case (Inl e)
      then have "h' = h" "res = Inl e"
        using "1.prems"(4) True by (subst (asm) newton_loop_store.simps, simp)+
      moreover have "newton_loop tf (h ! z) m (h ! y) u it = Inl e"
        using True Inl by (subst newton_loop.simps) simp
      ultimately show ?thesis by simp
    next
      case (Inr p)
      obtain y' u1 where p: "p = (y', u1)" by (cases p)
      have rec: "newton_loop_store tf z y m (h[y := y']) (Update u1) (it + 1) = (h', res)"
        using "1.prems"(4) True Inr p by (subst (asm) newton_loop_store.simps) simp
      have IH: "length h' = length (h[y := y']) \<and> (\<forall>p. p \<noteq> y \<longrightarrow> h' ! p = h[y := y'] ! p) \<and>
         (case res of
            Inl e \<Rightarrow> newton_loop tf (h[y := y'] ! z) m (h[y := y'] ! y) (Update u1) (it + 1) = Inl e
          | Inr (u', k) \<Rightarrow> newton_loop tf (h[y := y'] ! z) m (h[y := y'] ! y) (Update u1) (it + 1)
                            = Inr (h' ! y, u', k))"
        using "1.prems"(1,2,3) rec
        by (intro "1.IH" [OF True _ refl]) (simp_all add: Inr p)
      have unfold: "newton_loop tf (h ! z) m (h ! y) u it =
                    newton_loop tf (h ! z) m y' (Update u1) (it + 1)"
        using True Inr p by (subst newton_loop.simps) simp
      have nz: "h[y := y'] ! z = h ! z" and ny: "h[y := y'] ! y = y'"
        using "1.prems"(1,2,3) by simp_all
      note IH' = IH [unfolded nz ny unfold [symmetric]]
      have "length h' = length h"
        using IH' by simp
      moreover have "\<forall>p. p \<noteq> y \<longrightarrow> h' ! p = h ! p"
        using IH' by simp
      ultimately show ?thesis
        using IH' by blast
    qed
  next
    case False
    then have "h' = h" "res = Inr (u, it)"
      using "1.prems"(4) by (subst (asm) newton_loop_store.simps, simp)+
    moreover have "newton_loop tf (h ! z) m (h ! y) u it = Inr (h ! y, u, it)"
      using False by (subst newton_loop.simps) auto
    ultimately show ?thesis by simp
  qed
qed

lemma initial_guess_store_refines:
  assumes "z < length h" and "initial_guess_store tf h z = (h', res)"
  shows "length h' = Suc (length h) \<and> (\<forall>p < length h. h' ! p = h ! p) \<and>
         (case res of
            Inl e \<Rightarrow> initial_guess tf (h ! z) = Inl e
          | Inr y \<Rightarrow> y = length h \<and> initial_guess tf (h ! z) = Inr (h' ! y))"
  using assms
  by (auto simp: initial_guess_store_def initial_guess_def alloc_def nth_append
      split: option.splits sum.splits)

lemma f_inv_store_loop:
  assumes zc: "zc < length h2" and y: "y < length h2" and ne: "zc \<noteq> y"
    and loop: "newton_loop_store tf zc y m h2 Infinity 0 = (h3, lres)"
    and sg: "start_guess tf (h2 ! zc) y_val = Inr (h2 ! y)"
  shows "length h3 = length h2 \<and> (\<forall>p. p \<noteq> y \<longrightarrow> h3 ! p = h2 ! p) \<and>
         (case lres of
            Inl e \<Rightarrow> f_inv tf (h2 ! zc) m y_val = Inl e
          | Inr (u, k) \<Rightarrow>
              f_inv tf (h2 ! zc) m y_val =
                Inr \<lparr> result_y = h3 ! y, iterations = k, last_update = u,
                      printed_lines = (if int k = m
                        then [Warning_line, Sum_line (np_sum u)] else []) \<rparr>)"
proof -
  note r = newton_loop_store_refines [OF zc y ne loop]
  show ?thesis
  proof (cases lres)
    case (Inl e)
    then show ?thesis using r by (simp add: f_inv_def sg)
  next
    case (Inr p)
    obtain u k where "p = (u, k)" by (cases p)
    then show ?thesis using r Inr by (simp add: f_inv_def sg)
  qed
qed

lemma f_inv_store_Some:
  assumes z: "z < length h" and y: "y < length h"
    and fi: "f_inv_store tf h z m (Some y) = (h', res)"
  shows "(\<forall>p < length h. p \<noteq> y \<longrightarrow> h' ! p = h ! p) \<and>
         (\<forall>ret r. res = Inr (ret, r) \<longrightarrow>
            ret = y \<and> h' ! ret = result_y r \<and> f_inv tf (h ! z) m (Some (h ! y)) = Inr r)"
proof -
  let ?h1 = "h @ [h ! z]"
  obtain h3 lres where loop: "newton_loop_store tf (length h) y m ?h1 Infinity 0 = (h3, lres)"
    by (cases "newton_loop_store tf (length h) y m ?h1 Infinity 0")
  have zc: "length h < length ?h1" and y1: "y < length ?h1" and ne: "length h \<noteq> y"
    using y by simp_all
  have sg: "start_guess tf (?h1 ! length h) (Some (h ! y)) = Inr (?h1 ! y)"
    using y by (simp add: start_guess_def nth_append)
  note r = f_inv_store_loop [OF zc y1 ne loop sg]
  have hz: "?h1 ! length h = h ! z" by simp
  have old: "?h1 ! p = h ! p" if "p < length h" for p
    using that by (simp add: nth_append)
  have res: "h' = h3" "res = (case lres of Inl e \<Rightarrow> Inl e
       | Inr (u, k) \<Rightarrow> Inr (y, \<lparr> result_y = h3 ! y, iterations = k, last_update = u,
                      printed_lines = (if int k = m
                        then [Warning_line, Sum_line (np_sum u)] else []) \<rparr>))"
    using fi by (auto simp: f_inv_store_def alloc_def loop split: sum.splits prod.splits)
  show ?thesis
    using r old unfolding res hz
    by (auto split: sum.splits prod.splits)
qed

lemma f_inv_store_None:
  assumes z: "z < length h"
    and fi: "f_inv_store tf h z m None = (h', res)"
  shows "(\<forall>p < length h. h' ! p = h ! p) \<and>
         (\<forall>ret r. res = Inr (ret, r) \<longrightarrow>
            length h \<le> ret \<and> h' ! ret = result_y r \<and> f_inv tf (h ! z) m None = Inr r)"
proof -
  let ?h1 = "h @ [h ! z]"
  obtain h2 gres where ig: "initial_guess_store tf ?h1 (length h) = (h2, gres)"
    by (cases "initial_guess_store tf ?h1 (length h)")
  have zc: "length h < length ?h1" by simp
  note g = initial_guess_store_refines [OF zc ig]
  have hz: "?h1 ! length h = h ! z" by simp
  have old1: "?h1 ! p = h ! p" if "p < length h" for p
    using that by (simp add: nth_append)
  show ?thesis
  proof (cases gres)
    case (Inl e)
    then have "h' = h2" "res = Inl e"
      using fi by (auto simp: f_inv_store_def alloc_def ig)
    then show ?thesis
      using g old1 by simp
  next
    case (Inr y)
    then have y: "y = Suc (length h)" and gv: "initial_guess tf (h ! z) = Inr (h2 ! y)"
      using g by (simp_all add: hz)
    have l2: "length h2 = Suc (Suc (length h))"
      using g by simp
    have old2: "h2 ! p = h ! p" if "p < length h" for p
    proof -
      have "h2 ! p = ?h1 ! p" using g that by simp
      then show ?thesis using that by (simp add: nth_append)
    qed
    obtain h3 lres where loop: "newton_loop_store tf (length h) y m h2 Infinity 0 = (h3, lres)"
      by (cases "newton_loop_store tf (length h) y m h2 Infinity 0")
    have zc2: "length h < length h2" and y2: "y < length h2" and ne: "length h \<noteq> y"
      using y l2 by simp_all
    have hz2: "h2 ! length h = h ! z"
    proof -
      have "h2 ! length h = ?h1 ! length h" using g by simp
      then show ?thesis by simp
    qed
    have sg: "start_guess tf (h2 ! length h) None = Inr (h2 ! y)"
      by (simp add: start_guess_def hz2 gv)
    note r = f_inv_store_loop [OF zc2 y2 ne loop sg]
    have res: "h' = h3" "res = (case lres of Inl e \<Rightarrow> Inl e
       | Inr (u, k) \<Rightarrow> Inr (y, \<lparr> result_y = h3 ! y, iterations = k, last_update = u,
                      printed_lines = (if int k = m
                        then [Warning_line, Sum_line (np_sum u)] else []) \<rparr>))"
      using fi by (auto simp: f_inv_store_def alloc_def ig Inr loop split: sum.splits prod.splits)
    have frame: "h3 ! p = h ! p" if "p < length h" for p
    proof -
      have "p \<noteq> y" using that y by simp
      then have "h3 ! p = h2 ! p" using r by simp
      then show ?thesis using old2 [of p] that by simp
    qed
    show ?thesis
      using r frame y unfolding res hz2
      by (auto split: sum.splits prod.splits)
  qed
qed

lemma newton_loop_store_first:
  "newton_step tf (h ! z) (h ! y) = Inr (y', u) \<Longrightarrow>
   newton_loop_store tf z y m h Infinity 0 = newton_loop_store tf z y m (h[y := y']) (Update u) 1"
  by (subst newton_loop_store.simps) simp

lemma newton_loop_store_stop:
  "it \<noteq> 0 \<Longrightarrow> \<not> (exceeds u \<and> int it < m) \<Longrightarrow>
   newton_loop_store tf z y m h u it = (h, Inr (u, it))"
  by (subst newton_loop_store.simps) auto

lemma one_step_store:
  assumes "z < length h" and "y < length h" and "h ! z = [1]" and "h ! y = [1]"
  shows "f_inv_store (one_term 1 1 (- 1) 2) h z 1 (Some y) =
           ((h @ [[1]])[y := [2 / 3]],
            Inr (y, \<lparr> result_y = [2 / 3], iterations = 1, last_update = Update [1 / 3],
                      printed_lines = [Warning_line, Sum_line (Some (1 / 3))] \<rparr>))"
proof -
  let ?tf = "one_term 1 1 (- 1) 2"
  let ?h1 = "h @ [[1]]"
  have v: "valid ?tf" by (simp add: valid_def one_term_def)
  have st: "newton_step ?tf [1] [1] = Inr ([2 / 3], [1 / 3])"
    by (subst newton_step_valid [OF v]) (simp_all add: f1_def fgrad1_def one_term_def)
  have hz: "?h1 ! length h = [1]" by simp
  have hy: "?h1 ! y = [1]" using assms by (simp add: nth_append)
  have st': "newton_step ?tf (?h1 ! length h) (?h1 ! y) = Inr ([2 / 3], [1 / 3])"
    unfolding hz hy by (rule st)
  have "newton_loop_store ?tf (length h) y 1 (?h1[y := [2 / 3]]) (Update [1 / 3]) 1 =
        (?h1[y := [2 / 3]], Inr (Update [1 / 3], 1))"
    by (rule newton_loop_store_stop) simp_all
  then have loop: "newton_loop_store ?tf (length h) y 1 ?h1 Infinity 0 =
        (?h1[y := [2 / 3]], Inr (Update [1 / 3], 1))"
    by (simp only: newton_loop_store_first [OF st'])
  have yl: "y < length ?h1" using assms by simp
  show ?thesis
    using yl by (simp add: f_inv_store_def alloc_def assms(3) loop)
qed

text \<open>
  Claim C10, as stated: \<open>f_inv\<close> never modifies its \<open>z\<close> argument, and a supplied \<open>y\<close> is
  mutated in place and returned. The copy protects \<open>z\<close> only from the reads of the loop:
  when the caller passes the same array as \<open>z\<close> and as \<open>y\<close>, \<open>y -= update\<close> writes that
  array. With \<open>a = b = 1\<close>, \<open>c = -1\<close>, \<open>d = 2\<close>, the array \<open>[1]\<close> passed as both and
  \<open>max_iterations = 1\<close>, the array holds \<open>[2/3]\<close> on return.
\<close>

theorem f_inv_store_z_counterexample:
  "f_inv_store (one_term 1 1 (- 1) 2) [[1]] 0 1 (Some 0) =
     ([[2 / 3], [1]],
      Inr (0, \<lparr> result_y = [2 / 3], iterations = 1, last_update = Update [1 / 3],
                printed_lines = [Warning_line, Sum_line (Some (1 / 3))] \<rparr>)) \<and>
   [[2 / 3], [1]] ! 0 \<noteq> [[1::real]] ! 0"
  using one_step_store [of 0 "[[1]]" 0] by simp

text \<open>
  Claim C10, amended: \<open>f_inv\<close> modifies no array of its caller other than the one passed
  as \<open>y\<close>; in particular it never modifies its \<open>z\<close> argument unless the same array is passed
  as \<open>y\<close>. When the caller supplies \<open>y\<close>, the object returned is that same array, and on
  return it holds the result of the iteration (each Newton update subtracted from it);
  without \<open>y\<close> the array returned is a new one.
\<close>

theorem f_inv_store_frame:
  assumes "z < length h" and "case y_arg of None \<Rightarrow> True | Some y \<Rightarrow> y < length h"
    and "f_inv_store tf h z m y_arg = (h', res)"
  shows "(\<forall>p < length h. y_arg \<noteq> Some p \<longrightarrow> h' ! p = h ! p) \<and>
         (\<forall>ret r. res = Inr (ret, r) \<longrightarrow>
            h' ! ret = result_y r \<and>
            (case y_arg of
               Some y \<Rightarrow> ret = y \<and> f_inv tf (h ! z) m (Some (h ! y)) = Inr r
             | None \<Rightarrow> length h \<le> ret \<and> f_inv tf (h ! z) m None = Inr r))"
proof (cases y_arg)
  case None
  then show ?thesis
    using f_inv_store_None [OF assms(1), of tf m h' res] assms(3) by simp
next
  case (Some y)
  then have y: "y < length h" using assms(2) by simp
  show ?thesis
    using f_inv_store_Some [OF assms(1) y, of tf m h' res] assms(3) Some by auto
qed

theorem f_inv_store_frame_witness:
  "(0::nat) < length [[1::real], [1]] \<and> (1::nat) < length [[1::real], [1]] \<and>
   f_inv_store (one_term 1 1 (- 1) 2) [[1], [1]] 0 1 (Some 1) =
     ([[1], [2 / 3], [1]],
      Inr (1, \<lparr> result_y = [2 / 3], iterations = 1, last_update = Update [1 / 3],
                printed_lines = [Warning_line, Sum_line (Some (1 / 3))] \<rparr>)) \<and>
   [[1], [2 / 3], [1::real]] ! 0 = [[1], [1]] ! 0 \<and>
   [[1], [2 / 3], [1::real]] ! 1 = [2 / 3] \<and>
   f_inv (one_term 1 1 (- 1) 2) ([[1], [1]] ! 0) 1 (Some ([[1], [1]] ! 1)) =
     Inr \<lparr> result_y = [2 / 3], iterations = 1, last_update = Update [1 / 3],
           printed_lines = [Warning_line, Sum_line (Some (1 / 3))] \<rparr>"
proof -
  have run: "f_inv_store (one_term 1 1 (- 1) 2) [[1], [1]] 0 1 (Some 1) =
     ([[1], [2 / 3], [1]],
      Inr (1, \<lparr> result_y = [2 / 3], iterations = 1, last_update = Update [1 / 3],
                printed_lines = [Warning_line, Sum_line (Some (1 / 3))] \<rparr>))"
    using one_step_store [of 0 "[[1], [1]]" 1] by simp
  have z: "(0::nat) < length [[1::real], [1]]" by simp
  have y: "case Some (1::nat) of None \<Rightarrow> True | Some y \<Rightarrow> y < length [[1::real], [1]]" by simp
  show ?thesis
    using run f_inv_store_frame [OF z y run] by simp
qed

subsection \<open>Concrete scenario B: the inverse at \<open>z = 0\<close>\<close>

lemma first_update_large:
  fixes T :: real
  assumes "0 < T" and "T < 1"
  shows "1 / 2 < (1 + T) / (2 - T\<^sup>2)"
proof -
  have T2: "0 \<le> T\<^sup>2" "T\<^sup>2 < 1"
    using assms by (simp_all add: power_less_one_iff)
  have "1 / 2 * (2 - T\<^sup>2) < 1 + T"
    using assms(1) T2(1) by (simp add: algebra_simps add_pos_nonneg)
  moreover have "0 < 2 - T\<^sup>2"
    using T2(2) by simp
  ultimately show ?thesis
    by (simp only: pos_less_divide_eq)
qed

text \<open>
  Claim C8, as stated: with one term \<open>a = b = 1\<close>, \<open>c = 0\<close>, \<open>d = 1\<close> and no hint,
  \<open>f_inv\<close> at \<open>z = 0\<close> converges in exactly one iteration. The iteration does not start at
  the root: \<open>z > 0\<close> is false, so the initial guess is \<open>-1\<close>, and the first update has
  magnitude above \<open>1/2\<close>; with a hundred iterations allowed the loop runs at least twice.
\<close>

theorem f_inv_one_iteration_counterexample:
  "\<exists>r. f_inv (one_term 1 1 0 1) [0] 100 None = Inr r \<and> 2 \<le> iterations r"
proof -
  define tf where "tf = one_term 1 1 0 1"
  have v: "valid tf" by (simp add: tf_def valid_def one_term_def)
  have sg: "start_guess tf [0] None = Inr [- 1]"
    by (simp add: tf_def start_guess_def initial_guess_def sign_guess_def one_term_def)
  obtain r u where r: "f_inv tf [0] 100 None = Inr r" "1 \<le> iterations r"
      "newton_iter tf [0] [- 1] (iterations r) = Inr (result_y r, Update u)"
      "abs_sum u \<le> 1 / 10 ^ 10 \<or> 100 \<le> int (iterations r)"
    using f_inv_char [OF v sg, of 100] by auto
  define q where "q = (f1 tf (- 1) - 0) / fgrad1 tf (- 1)"
  have st: "newton_step tf [0] [- 1] = Inr ([- 1 - q], [q])"
    by (subst newton_step_valid [OF v]) (simp_all add: q_def)
  have t: "0 < tanh (1::real)" "tanh (1::real) < 1"
    by (simp_all add: tanh_real_lt_1)
  have t2: "(tanh (1::real))\<^sup>2 < 1"
    using t by (simp add: power_less_one_iff)
  have q0: "q = (- 1 - tanh 1) / (2 - (tanh 1)\<^sup>2)"
    by (simp add: q_def tf_def f1_def fgrad1_def one_term_def algebra_simps)
  have q: "q = - ((1 + tanh 1) / (2 - (tanh 1)\<^sup>2))"
    unfolding q0 minus_divide_left by simp
  have "1 / 2 < (1 + tanh 1) / (2 - (tanh (1::real))\<^sup>2)"
    by (rule first_update_large [OF t])
  then have big: "1 / 2 < \<bar>q\<bar>"
    unfolding q abs_minus_cancel by (rule order_less_le_trans) (rule abs_ge_self)
  have "iterations r \<noteq> 1"
  proof
    assume one: "iterations r = 1"
    have "u = [q]"
      using r(3) unfolding one by (simp add: st)
    then have "abs_sum u = \<bar>q\<bar>"
      by (simp add: abs_sum_def)
    then show False
      using r(4) big one by simp
  qed
  then have "2 \<le> iterations r" using r(2) by simp
  then have "\<exists>r. f_inv tf [0] 100 None = Inr r \<and> 2 \<le> iterations r"
    using r(1) by blast
  then show ?thesis by (simp only: tf_def)
qed

text \<open>Bounds on \<open>tanh\<close>, and on the Newton map of the scenario: it cubes the distance
  to the root.\<close>

lemma tanh_le_self:
  fixes y :: real
  assumes "0 \<le> y"
  shows "tanh y \<le> y"
proof -
  have "(\<lambda>x. x - tanh x) 0 \<le> (\<lambda>x. x - tanh x) y"
  proof (rule DERIV_nonneg_imp_nondecreasing [OF assms])
    fix x :: real
    have "((\<lambda>x. x - tanh x) has_real_derivative 1 - (1 - (tanh x)\<^sup>2)) (at x)"
      by (auto intro!: derivative_eq_intros)
    then show "\<exists>d. ((\<lambda>x. x - tanh x) has_real_derivative d) (at x) \<and> 0 \<le> d"
      by (intro exI [of _ "1 - (1 - (tanh x)\<^sup>2)"]) simp
  qed
  then show ?thesis by simp
qed

lemma tanh_ge_cubic:
  fixes y :: real
  assumes "0 \<le> y"
  shows "y - y ^ 3 / 3 \<le> tanh y"
proof -
  have "(\<lambda>x. tanh x - x + x ^ 3 / 3) 0 \<le> (\<lambda>x. tanh x - x + x ^ 3 / 3) y"
  proof (rule DERIV_nonneg_imp_nondecreasing [OF assms])
    fix x :: real
    assume x: "0 \<le> x"
    have d: "((\<lambda>x. tanh x - x + x ^ 3 / 3) has_real_derivative (1 - (tanh x)\<^sup>2) - 1 + x\<^sup>2) (at x)"
      by (auto intro!: derivative_eq_intros simp: power2_eq_square)
    have "0 \<le> tanh x" "tanh x \<le> x"
      using x tanh_le_self by simp_all
    then have "(tanh x)\<^sup>2 \<le> x\<^sup>2"
      by (intro power_mono) simp_all
    then have "0 \<le> (1 - (tanh x)\<^sup>2) - 1 + x\<^sup>2"
      by simp
    with d show "\<exists>d. ((\<lambda>x. tanh x - x + x ^ 3 / 3) has_real_derivative d) (at x) \<and> 0 \<le> d"
      by blast
  qed
  then show ?thesis by simp
qed

lemma tanh_1_bounds: "18 / 25 \<le> tanh (1::real)" "tanh (1::real) \<le> 4 / 5"
proof -
  define E :: real where "E = exp (- 2)"
  have Epos: "0 < E" by (simp add: E_def)
  have e2: "exp (2::real) = 1 / E"
    by (simp add: E_def exp_minus field_simps)
  have "exp (2::real) = exp (1 / 8 * of_nat 16)"
    by simp
  also have "\<dots> = exp (1 / 8) ^ 16"
    by (rule exp_of_nat2_mult)
  finally have p: "exp (2::real) = exp (1 / 8) ^ 16" .
  have "(1 + 1 / 8 :: real) \<le> exp (1 / 8)"
    by (rule exp_ge_add_one_self)
  then have "(1 + 1 / 8 :: real) ^ 16 \<le> exp (1 / 8) ^ 16"
    by (intro power_mono) simp_all
  moreover have "(25 / 4 :: real) \<le> (1 + 1 / 8) ^ 16"
    by (simp add: power_divide)
  ultimately have lo: "25 / 4 \<le> exp (2::real)"
    unfolding p by linarith
  have "exp (2::real) = exp (1 * of_nat 2)"
    by simp
  also have "\<dots> = exp 1 ^ 2"
    by (rule exp_of_nat2_mult)
  also have "\<dots> \<le> 3 ^ 2"
    using exp_le by (intro power_mono) simp_all
  finally have hi: "exp (2::real) \<le> 9"
    by simp
  have Ehi: "E \<le> 4 / 25"
    using lo Epos unfolding e2 by (simp add: field_simps)
  have Elo: "1 / 9 \<le> E"
    using hi Epos unfolding e2 by (simp add: field_simps)
  have t: "tanh (1::real) = (1 - E) / (1 + E)"
    by (simp add: tanh_real_altdef E_def)
  show "18 / 25 \<le> tanh (1::real)"
    unfolding t using Ehi Epos by (simp add: pos_le_divide_eq)
  show "tanh (1::real) \<le> 4 / 5"
    unfolding t using Elo Epos by (simp add: pos_divide_le_eq)
qed

lemma newton_quotient_upper:
  fixes y T :: real
  assumes y: "0 \<le> y" "y \<le> 1" and T: "0 \<le> T" "y - y ^ 3 / 3 \<le> T" "T \<le> y"
  shows "\<bar>(y - T - y * T\<^sup>2) / (2 - T\<^sup>2)\<bar> \<le> y ^ 3"
proof -
  have T2: "T\<^sup>2 \<le> y\<^sup>2"
    using T by (intro power_mono) simp_all
  have y2: "y\<^sup>2 \<le> 1"
    using y by (simp add: power_le_one)
  have den: "1 \<le> 2 - T\<^sup>2"
    using T2 y2 by simp
  have a: "0 \<le> y - T" "y - T \<le> y ^ 3 / 3"
    using T by simp_all
  have y3: "0 \<le> y ^ 3"
    using y by simp
  have b0: "0 \<le> y * T\<^sup>2"
    using y by simp
  have "y * T\<^sup>2 \<le> y * y\<^sup>2"
    using T2 y by (intro mult_left_mono) simp_all
  then have b: "y * T\<^sup>2 \<le> y ^ 3"
    by (simp add: power3_eq_cube power2_eq_square)
  have num: "\<bar>y - T - y * T\<^sup>2\<bar> \<le> y ^ 3"
    using a b b0 y3 by linarith
  have "\<bar>(y - T - y * T\<^sup>2) / (2 - T\<^sup>2)\<bar> = \<bar>y - T - y * T\<^sup>2\<bar> / (2 - T\<^sup>2)"
    using den by simp
  also have "\<dots> \<le> \<bar>y - T - y * T\<^sup>2\<bar> / 1"
    using den by (intro divide_left_mono) simp_all
  finally show ?thesis
    using num by simp
qed

lemma newton_quotient_lower:
  fixes y T :: real
  assumes y: "0 \<le> y" "y \<le> 1 / 2" and T: "y - y ^ 3 / 3 \<le> T" "T \<le> y"
  shows "y ^ 3 / 4 \<le> \<bar>(y - T - y * T\<^sup>2) / (2 - T\<^sup>2)\<bar>"
proof -
  have y2: "y\<^sup>2 \<le> 1 / 4"
  proof -
    have "y\<^sup>2 \<le> (1 / 2)\<^sup>2"
      using y by (intro power_mono) simp_all
    then show ?thesis by (simp add: power2_eq_square)
  qed
  have "y * y\<^sup>2 \<le> y * (1 / 4)"
    using y2 y by (intro mult_left_mono) simp_all
  then have y3: "y ^ 3 \<le> y / 4"
    by (simp add: power3_eq_cube power2_eq_square)
  have y30: "0 \<le> y ^ 3"
    using y by simp
  have Tlo: "11 / 12 * y \<le> T"
    using T(1) y3 by simp
  then have T0: "0 \<le> T"
    using y(1) by (meson dual_order.trans mult_nonneg_nonneg zero_le_divide_iff zero_le_numeral)
  have "(11 / 12 * y)\<^sup>2 \<le> T\<^sup>2"
    using Tlo y by (intro power_mono) simp_all
  then have T2lo: "121 / 144 * y\<^sup>2 \<le> T\<^sup>2"
    by (simp add: power2_eq_square)
  have "y * (121 / 144 * y\<^sup>2) \<le> y * T\<^sup>2"
    using T2lo y by (intro mult_left_mono) simp_all
  then have b: "121 / 144 * y ^ 3 \<le> y * T\<^sup>2"
    by (simp add: power3_eq_cube power2_eq_square)
  have T2: "T\<^sup>2 \<le> y\<^sup>2"
    using T T0 by (intro power_mono) simp_all
  have den: "1 \<le> 2 - T\<^sup>2" "2 - T\<^sup>2 \<le> 2"
    using T2 y2 by simp_all
  have "y - T - y * T\<^sup>2 \<le> y ^ 3 / 3 - 121 / 144 * y ^ 3"
    using T(1) b by linarith
  then have num: "y ^ 3 / 2 \<le> \<bar>y - T - y * T\<^sup>2\<bar>"
    using y30 by linarith
  have "y ^ 3 / 4 = (y ^ 3 / 2) / 2"
    by simp
  also have "\<dots> \<le> \<bar>y - T - y * T\<^sup>2\<bar> / 2"
    using num by simp
  also have "\<dots> \<le> \<bar>y - T - y * T\<^sup>2\<bar> / (2 - T\<^sup>2)"
    using den by (intro divide_left_mono) simp_all
  also have "\<dots> = \<bar>(y - T - y * T\<^sup>2) / (2 - T\<^sup>2)\<bar>"
    using den by simp
  finally show ?thesis .
qed

lemma newton_step_single:
  assumes "valid tf"
  shows "newton_step tf [w] [v] = Inr ([newton_map tf w v], [v - newton_map tf w v])"
  by (subst newton_step_valid [OF assms]) (simp_all add: newton_map_def)

lemma scenario_map:
  "newton_map (one_term 1 1 0 1) 0 v =
     (v - tanh v - v * (tanh v)\<^sup>2) / (2 - (tanh v)\<^sup>2)"
proof -
  have "\<bar>tanh v\<bar> < 1"
    using tanh_real_lt_1 [of v] tanh_real_gt_neg1 [of v] by simp
  then have "(tanh v)\<^sup>2 < 1"
    by (simp add: abs_square_less_1)
  then have nz: "2 - (tanh v)\<^sup>2 \<noteq> 0"
    by simp
  have "newton_map (one_term 1 1 0 1) 0 v = v - (v + tanh v) / (2 - (tanh v)\<^sup>2)"
    by (simp add: newton_map_def f1_def fgrad1_def one_term_def algebra_simps)
  also have "\<dots> = (v - tanh v - v * (tanh v)\<^sup>2) / (2 - (tanh v)\<^sup>2)"
    using nz by (simp add: field_simps)
  finally show ?thesis .
qed

lemma scenario_map_odd:
  "newton_map (one_term 1 1 0 1) 0 (- v) = - newton_map (one_term 1 1 0 1) 0 v"
proof -
  have "(- v - tanh (- v) - (- v) * (tanh (- v))\<^sup>2) / (2 - (tanh (- v))\<^sup>2) =
        (- (v - tanh v - v * (tanh v)\<^sup>2)) / (2 - (tanh v)\<^sup>2)"
    by (rule arg_cong2 [where f = "(/)"]) simp_all
  then show ?thesis
    unfolding scenario_map minus_divide_left .
qed

lemma scenario_map_bounds_nonneg:
  assumes "0 \<le> v" and "v \<le> 1 / 2"
  shows "v ^ 3 / 4 \<le> \<bar>newton_map (one_term 1 1 0 1) 0 v\<bar>"
    and "\<bar>newton_map (one_term 1 1 0 1) 0 v\<bar> \<le> v ^ 3"
proof -
  have T: "0 \<le> tanh v" "v - v ^ 3 / 3 \<le> tanh v" "tanh v \<le> v"
    using assms(1) tanh_ge_cubic tanh_le_self by simp_all
  have v1: "v \<le> 1" using assms(2) by simp
  show "v ^ 3 / 4 \<le> \<bar>newton_map (one_term 1 1 0 1) 0 v\<bar>"
    unfolding scenario_map by (rule newton_quotient_lower [OF assms T(2,3)])
  show "\<bar>newton_map (one_term 1 1 0 1) 0 v\<bar> \<le> v ^ 3"
    unfolding scenario_map by (rule newton_quotient_upper [OF assms(1) v1 T])
qed

lemma scenario_map_bounds:
  assumes "\<bar>v\<bar> \<le> 1 / 2"
  shows "\<bar>v\<bar> ^ 3 / 4 \<le> \<bar>newton_map (one_term 1 1 0 1) 0 v\<bar>"
    and "\<bar>newton_map (one_term 1 1 0 1) 0 v\<bar> \<le> \<bar>v\<bar> ^ 3"
proof -
  have eq: "\<bar>newton_map (one_term 1 1 0 1) 0 v\<bar> = \<bar>newton_map (one_term 1 1 0 1) 0 \<bar>v\<bar>\<bar>"
  proof (cases "0 \<le> v")
    case True
    then show ?thesis by simp
  next
    case False
    then have "\<bar>v\<bar> = - v" by simp
    then show ?thesis by (simp add: scenario_map_odd)
  qed
  show "\<bar>v\<bar> ^ 3 / 4 \<le> \<bar>newton_map (one_term 1 1 0 1) 0 v\<bar>"
    unfolding eq by (rule scenario_map_bounds_nonneg(1) [OF abs_ge_zero assms])
  show "\<bar>newton_map (one_term 1 1 0 1) 0 v\<bar> \<le> \<bar>v\<bar> ^ 3"
    unfolding eq by (rule scenario_map_bounds_nonneg(2) [OF abs_ge_zero assms])
qed

lemma scenario_map_first:
  "4 / 25 \<le> \<bar>newton_map (one_term 1 1 0 1) 0 (- 1)\<bar>"
  "\<bar>newton_map (one_term 1 1 0 1) 0 (- 1)\<bar> \<le> 1 / 3"
proof -
  define T :: real where "T = tanh 1"
  have T: "18 / 25 \<le> T" "T \<le> 4 / 5"
    unfolding T_def by (rule tanh_1_bounds)+
  have T0: "0 \<le> T" using T by simp
  have "(18 / 25)\<^sup>2 \<le> T\<^sup>2"
    using T by (intro power_mono) simp_all
  then have T2lo: "324 / 625 \<le> T\<^sup>2"
    by (simp add: power2_eq_square)
  have "T\<^sup>2 \<le> (4 / 5)\<^sup>2"
    using T T0 by (intro power_mono) simp_all
  then have T2hi: "T\<^sup>2 \<le> 16 / 25"
    by (simp add: power2_eq_square)
  have den: "0 < 2 - T\<^sup>2"
    using T2hi by simp
  have m: "newton_map (one_term 1 1 0 1) 0 (- 1) = (- 1 + T + T\<^sup>2) / (2 - T\<^sup>2)"
    unfolding scenario_map T_def by simp
  have num: "0 \<le> - 1 + T + T\<^sup>2"
    using T T2lo by simp
  have abs: "\<bar>newton_map (one_term 1 1 0 1) 0 (- 1)\<bar> = (- 1 + T + T\<^sup>2) / (2 - T\<^sup>2)"
    unfolding m using num den by simp
  show "4 / 25 \<le> \<bar>newton_map (one_term 1 1 0 1) 0 (- 1)\<bar>"
    unfolding abs using den T T2lo T2hi by (simp add: pos_le_divide_eq)
  show "\<bar>newton_map (one_term 1 1 0 1) 0 (- 1)\<bar> \<le> 1 / 3"
    unfolding abs using den T T2lo T2hi by (simp add: pos_divide_le_eq)
qed

lemma cube_mono:
  fixes x h :: real
  assumes "0 \<le> x" and "x \<le> h"
  shows "x ^ 3 \<le> h ^ 3"
  using assms by (intro power_mono) simp_all

lemma scenario_iterates:
  fixes y1 y2 y3 y4 y5 :: real
  assumes y1: "y1 = newton_map (one_term 1 1 0 1) 0 (- 1)"
    and y2: "y2 = newton_map (one_term 1 1 0 1) 0 y1"
    and y3: "y3 = newton_map (one_term 1 1 0 1) 0 y2"
    and y4: "y4 = newton_map (one_term 1 1 0 1) 0 y3"
    and y5: "y5 = newton_map (one_term 1 1 0 1) 0 y4"
  shows "1 / 10 ^ 10 < \<bar>- 1 - y1\<bar>" and "1 / 10 ^ 10 < \<bar>y1 - y2\<bar>"
    and "1 / 10 ^ 10 < \<bar>y2 - y3\<bar>" and "1 / 10 ^ 10 < \<bar>y3 - y4\<bar>"
    and "\<bar>y4 - y5\<bar> \<le> 1 / 10 ^ 10" and "\<bar>y5\<bar> \<le> 1 / 10 ^ 36"
proof -
  have m1: "4 / 25 \<le> \<bar>y1\<bar>" "\<bar>y1\<bar> \<le> 1 / 3"
    unfolding y1 by (rule scenario_map_first)+
  have h1: "\<bar>y1\<bar> \<le> 1 / 2" using m1 by simp
  have "(4 / 25 :: real) ^ 3 \<le> \<bar>y1\<bar> ^ 3"
    using m1 by (intro cube_mono) simp_all
  moreover have "\<bar>y1\<bar> ^ 3 \<le> (1 / 3) ^ 3"
    using m1 by (intro cube_mono) simp_all
  ultimately have c1: "64 / 15625 \<le> \<bar>y1\<bar> ^ 3" "\<bar>y1\<bar> ^ 3 \<le> 1 / 27"
    by (simp_all add: power3_eq_cube)
  have m2: "1 / 1000 \<le> \<bar>y2\<bar>" "\<bar>y2\<bar> \<le> 1 / 25"
    using scenario_map_bounds [OF h1] c1 unfolding y2 by linarith+
  have h2: "\<bar>y2\<bar> \<le> 1 / 2" using m2 by simp
  have "(1 / 1000 :: real) ^ 3 \<le> \<bar>y2\<bar> ^ 3"
    using m2 by (intro cube_mono) simp_all
  moreover have "\<bar>y2\<bar> ^ 3 \<le> (1 / 25) ^ 3"
    using m2 by (intro cube_mono) simp_all
  ultimately have c2: "1 / 10 ^ 9 \<le> \<bar>y2\<bar> ^ 3" "\<bar>y2\<bar> ^ 3 \<le> 1 / 15625"
    by (simp_all add: power3_eq_cube)
  have m3: "1 / (4 * 10 ^ 9) \<le> \<bar>y3\<bar>" "\<bar>y3\<bar> \<le> 1 / 15625"
    using scenario_map_bounds [OF h2] c2 unfolding y3 by linarith+
  have h3: "\<bar>y3\<bar> \<le> 1 / 2" using m3 by simp
  have "\<bar>y3\<bar> ^ 3 \<le> (1 / 15625) ^ 3"
    using m3 by (intro cube_mono) simp_all
  then have c3: "\<bar>y3\<bar> ^ 3 \<le> 1 / 10 ^ 12"
    by (simp add: power3_eq_cube)
  have m4: "\<bar>y4\<bar> \<le> 1 / 10 ^ 12"
    using scenario_map_bounds(2) [OF h3] c3 unfolding y4 by linarith
  have h4: "\<bar>y4\<bar> \<le> 1 / 2" using m4 by simp
  have "\<bar>y4\<bar> ^ 3 \<le> (1 / 10 ^ 12) ^ 3"
    using m4 by (intro cube_mono) simp_all
  then have c4: "\<bar>y4\<bar> ^ 3 \<le> 1 / 10 ^ 36"
    by (simp add: power3_eq_cube)
  show m5: "\<bar>y5\<bar> \<le> 1 / 10 ^ 36"
    using scenario_map_bounds(2) [OF h4] c4 unfolding y5 by linarith
  have t: "\<bar>a\<bar> - \<bar>b\<bar> \<le> \<bar>a - b\<bar>" "\<bar>a - b\<bar> \<le> \<bar>a\<bar> + \<bar>b\<bar>" for a b :: real
    by simp_all
  have e: "(1 / 10 ^ 10 :: real) < 2 / 3" "(1 / 10 ^ 10 :: real) < 4 / 25 - 1 / 25"
    "(1 / 10 ^ 10 :: real) < 1 / 1000 - 1 / 15625"
    "(1 / 10 ^ 10 :: real) < 1 / (4 * 10 ^ 9) - 1 / 10 ^ 12"
    "(1 / 10 ^ 12 + 1 / 10 ^ 36 :: real) \<le> 1 / 10 ^ 10"
    by simp_all
  show "1 / 10 ^ 10 < \<bar>- 1 - y1\<bar>"
    using m1 t(1) [of "- 1" y1] e(1) by linarith
  show "1 / 10 ^ 10 < \<bar>y1 - y2\<bar>"
    using m1 m2 t(1) [of y1 y2] e(2) by linarith
  show "1 / 10 ^ 10 < \<bar>y2 - y3\<bar>"
    using m2 m3 t(1) [of y2 y3] e(3) by linarith
  show "1 / 10 ^ 10 < \<bar>y3 - y4\<bar>"
    using m3 m4 t(1) [of y3 y4] e(4) by linarith
  show "\<bar>y4 - y5\<bar> \<le> 1 / 10 ^ 10"
    using m4 m5 t(2) [of y4 y5] e(5) by linarith
qed

lemma newton_loop_next:
  "exceeds u \<Longrightarrow> int it < m \<Longrightarrow> newton_step tf z y = Inr (y', u') \<Longrightarrow> it' = it + 1 \<Longrightarrow>
   newton_loop tf z m y u it = newton_loop tf z m y' (Update u') it'"
  by (simp add: newton_loop_continue)

lemma scenario_B_run:
  assumes "5 \<le> max_iterations"
  shows "\<exists>r u v. f_inv (one_term 1 1 0 1) [0] max_iterations None = Inr r \<and>
           start_guess (one_term 1 1 0 1) [0] None = Inr [- 1] \<and>
           iterations r = 5 \<and> last_update r = Update [u] \<and> \<bar>u\<bar> \<le> 1 / 10 ^ 10 \<and>
           result_y r = [v] \<and> \<bar>v\<bar> \<le> 1 / 10 ^ 36"
proof -
  let ?tf = "one_term 1 1 0 1"
  define y1 where "y1 = newton_map ?tf 0 (- 1)"
  define y2 where "y2 = newton_map ?tf 0 y1"
  define y3 where "y3 = newton_map ?tf 0 y2"
  define y4 where "y4 = newton_map ?tf 0 y3"
  define y5 where "y5 = newton_map ?tf 0 y4"
  note b = scenario_iterates [OF y1_def y2_def y3_def y4_def y5_def]
  have v: "valid ?tf" by (simp add: valid_def one_term_def)
  have sg: "start_guess ?tf [0] None = Inr [- 1]"
    by (simp add: start_guess_def initial_guess_def sign_guess_def one_term_def)
  have s1: "newton_step ?tf [0] [- 1] = Inr ([y1], [- 1 - y1])"
    unfolding y1_def by (rule newton_step_single [OF v])
  have s2: "newton_step ?tf [0] [y1] = Inr ([y2], [y1 - y2])"
    unfolding y2_def by (rule newton_step_single [OF v])
  have s3: "newton_step ?tf [0] [y2] = Inr ([y3], [y2 - y3])"
    unfolding y3_def by (rule newton_step_single [OF v])
  have s4: "newton_step ?tf [0] [y3] = Inr ([y4], [y3 - y4])"
    unfolding y4_def by (rule newton_step_single [OF v])
  have s5: "newton_step ?tf [0] [y4] = Inr ([y5], [y4 - y5])"
    unfolding y5_def by (rule newton_step_single [OF v])
  have m: "int 1 < max_iterations" "int 2 < max_iterations" "int 3 < max_iterations"
    "int 4 < max_iterations"
    using assms by simp_all
  have l1: "newton_loop ?tf [0] max_iterations [- 1] Infinity 0 =
        newton_loop ?tf [0] max_iterations [y1] (Update [- 1 - y1]) 1"
    by (rule newton_loop_first [OF s1])
  have l2: "newton_loop ?tf [0] max_iterations [y1] (Update [- 1 - y1]) 1 =
        newton_loop ?tf [0] max_iterations [y2] (Update [y1 - y2]) 2"
    using b(1) by (intro newton_loop_next [OF _ m(1) s2]) (simp_all add: abs_sum_def)
  have l3: "newton_loop ?tf [0] max_iterations [y2] (Update [y1 - y2]) 2 =
        newton_loop ?tf [0] max_iterations [y3] (Update [y2 - y3]) 3"
    using b(2) by (intro newton_loop_next [OF _ m(2) s3]) (simp_all add: abs_sum_def)
  have l4: "newton_loop ?tf [0] max_iterations [y3] (Update [y2 - y3]) 3 =
        newton_loop ?tf [0] max_iterations [y4] (Update [y3 - y4]) 4"
    using b(3) by (intro newton_loop_next [OF _ m(3) s4]) (simp_all add: abs_sum_def)
  have l5: "newton_loop ?tf [0] max_iterations [y4] (Update [y3 - y4]) 4 =
        newton_loop ?tf [0] max_iterations [y5] (Update [y4 - y5]) 5"
    using b(4) by (intro newton_loop_next [OF _ m(4) s5]) (simp_all add: abs_sum_def)
  have l6: "newton_loop ?tf [0] max_iterations [y5] (Update [y4 - y5]) 5 =
        Inr ([y5], Update [y4 - y5], 5)"
    using b(5) by (intro newton_loop_stop) (simp_all add: abs_sum_def)
  have loop: "newton_loop ?tf [0] max_iterations [- 1] Infinity 0 =
        Inr ([y5], Update [y4 - y5], 5)"
    by (simp only: l1 l2 l3 l4 l5 l6)
  show ?thesis
    using b(5,6) by (simp add: f_inv_def sg loop)
qed

text \<open>
  Claim C8, amended: with one term \<open>a = b = 1\<close>, \<open>c = 0\<close>, \<open>d = 1\<close> and no hint, \<open>f_inv\<close> at
  \<open>z = 0\<close> starts from the initial guess \<open>-1\<close> and, given at least five iterations,
  converges to \<open>y \<approx> 0\<close> (within \<open>1e-36\<close>) in exactly five Newton-Raphson iterations:
  the fifth update is the first whose magnitude is at most \<open>1e-10\<close>.
\<close>

theorem f_inv_scenario_B:
  assumes "5 \<le> max_iterations"
  shows "\<exists>r u v. f_inv (one_term 1 1 0 1) [0] max_iterations None = Inr r \<and>
           start_guess (one_term 1 1 0 1) [0] None = Inr [- 1] \<and>
           iterations r = 5 \<and> last_update r = Update [u] \<and> \<bar>u\<bar> \<le> 1 / 10 ^ 10 \<and>
           result_y r = [v] \<and> \<bar>v\<bar> \<le> 1 / 10 ^ 36"
  using assms by (rule scenario_B_run)

theorem f_inv_scenario_B_witness:
  "(5::int) \<le> 100 \<and>
   (\<exists>r u v. f_inv (one_term 1 1 0 1) [0] 100 None = Inr r \<and>
           start_guess (one_term 1 1 0 1) [0] None = Inr [- 1] \<and>
           iterations r = 5 \<and> last_update r = Update [u] \<and> \<bar>u\<bar> \<le> 1 / 10 ^ 10 \<and>
           result_y r = [v] \<and> \<bar>v\<bar> \<le> 1 / 10 ^ 36)"
  using f_inv_scenario_B [of 100] by simp

subsection \<open>A round trip that takes five iterations\<close>


end
